theory Spec2Isabelle
  imports Main "HOL-Library.Word"
begin

section \<open>Bytes, hexadecimal rendering and paths\<close>

type_synonym byte = "8 word"
type_synonym bytes = "byte list"

text \<open>
  Python strings are modelled as \<^typ>\<open>string\<close>, read as their UTF-8 bytes, so
  \<open>str.encode()\<close> only changes the type.
\<close>

definition encode :: "string \<Rightarrow> bytes" where
  "encode s = map (\<lambda>c. of_nat (of_char c)) s"

definition hexdigits :: string where
  "hexdigits = ''0123456789abcdef''"

definition hexdigit :: "nat \<Rightarrow> char" where
  "hexdigit n = hexdigits ! (n mod 16)"

definition hex_byte :: "byte \<Rightarrow> string" where
  "hex_byte w = [hexdigit (unat w div 16), hexdigit (unat w mod 16)]"

text \<open>
  \<open>hashlib.md5\<close> is an external library: its digest function is a parameter
  \<open>md5 :: bytes \<Rightarrow> bytes\<close> of everything that hashes. A hash object accumulates the
  bytes it was fed (\<open>update\<close> appends), and \<open>hexdigest\<close> renders the digest of what was
  accumulated as two lowercase hexadecimal digits per byte.
\<close>

definition hexdigest :: "(bytes \<Rightarrow> bytes) \<Rightarrow> bytes \<Rightarrow> string" where
  "hexdigest md5 h = concat (map hex_byte (md5 h))"

definition is_lower_hex :: "string \<Rightarrow> bool" where
  "is_lower_hex s = list_all (\<lambda>c. c \<in> set hexdigits) s"

text \<open>\<open>os.path.join\<close> of two components, with \<open>/\<close> as the separator.\<close>

definition sep :: char where
  "sep = CHR ''/''"

definition is_abs :: "string \<Rightarrow> bool" where
  "is_abs p = (case p of [] \<Rightarrow> False | c # _ \<Rightarrow> c = sep)"

definition ends_with_sep :: "string \<Rightarrow> bool" where
  "ends_with_sep p = (case rev p of [] \<Rightarrow> False | c # _ \<Rightarrow> c = sep)"

definition path_join :: "string \<Rightarrow> string \<Rightarrow> string" where
  "path_join a b =
     (if is_abs b then b
      else if a = [] \<or> ends_with_sep a then a @ b
      else a @ [sep] @ b)"

definition basename :: "string \<Rightarrow> string" where
  "basename p = rev (takeWhile (\<lambda>c. c \<noteq> sep) (rev p))"

section \<open>storage.py\<close>

definition STORAGE_ROOT :: string where
  "STORAGE_ROOT = ''d:/WorkShop/Practice/PythonWorkSpace/ObjectStorage/data''"

text \<open>The file system: the regular files under their full paths.\<close>

type_synonym file_system = "string \<rightharpoonup> bytes"

text \<open>An in-memory binary file (\<open>BytesIO\<close>): its contents and its cursor.\<close>

record file_obj =
  data :: bytes
  pos :: nat

definition seek :: "nat \<Rightarrow> file_obj \<Rightarrow> file_obj" where
  "seek n f = f\<lparr>pos := n\<rparr>"

definition read :: "nat \<Rightarrow> file_obj \<Rightarrow> bytes \<times> file_obj" where
  "read n f =
     (let chunk = take n (drop (pos f) (data f))
      in (chunk, f\<lparr>pos := pos f + length chunk\<rparr>))"

definition get_file_path :: "string \<Rightarrow> string" where
  "get_file_path storage_path = path_join STORAGE_ROOT storage_path"

text \<open>
  The loop of \<open>calculate_etag\<close>: read chunks of 4096 bytes until the empty chunk,
  feeding each to the hash object \<open>h\<close>.
\<close>

function etag_loop :: "file_obj \<Rightarrow> bytes \<Rightarrow> bytes \<times> file_obj" where
  "etag_loop f h =
     (case read 4096 f of (chunk, f') \<Rightarrow>
        if chunk = [] then (h, f') else etag_loop f' (h @ chunk))"
  by pat_completeness auto
termination
  by (relation "measure (\<lambda>(f, h). length (data f) - pos f)")
    (auto simp: read_def Let_def)

declare etag_loop.simps [simp del]

definition calculate_etag :: "(bytes \<Rightarrow> bytes) \<Rightarrow> file_obj \<Rightarrow> string \<times> file_obj" where
  "calculate_etag md5 file_obj =
     (let f0 = seek 0 file_obj;
          (hash_md5, f1) = etag_loop f0 [];
          f2 = seek 0 f1
      in ([CHR 0x22] @ hexdigest md5 hash_md5 @ [CHR 0x22], f2))"

text \<open>
  \<open>save_file\<close>: \<open>shutil.copyfileobj\<close> copies from the cursor of the source to its
  end; the result is the path relative to the storage root.
\<close>

definition save_file ::
  "(bytes \<Rightarrow> bytes) \<Rightarrow> file_obj \<Rightarrow> string \<Rightarrow> string \<Rightarrow> string \<Rightarrow> file_system \<Rightarrow> string \<times> file_system" where
  "save_file md5 file_obj bucket key version_id fs =
     (let key_hash = hexdigest md5 (encode key);
          directory = path_join (path_join STORAGE_ROOT bucket) key_hash;
          filename = version_id;
          file_path = path_join directory filename
      in (path_join (path_join bucket key_hash) filename,
          fs(file_path \<mapsto> drop (pos file_obj) (data file_obj))))"

definition get_file_content :: "string \<Rightarrow> file_system \<Rightarrow> bytes option" where
  "get_file_content storage_path fs =
     (let full_path = get_file_path storage_path
      in if fs full_path = None then None else fs full_path)"

definition delete_physical_file :: "string \<Rightarrow> file_system \<Rightarrow> file_system" where
  "delete_physical_file storage_path fs =
     (let full_path = get_file_path storage_path
      in if fs full_path \<noteq> None then fs(full_path := None) else fs)"

section \<open>models.py\<close>

record bucket =
  name :: string
  creation_date :: int
  versioning_enabled :: bool

record object_version =
  id_col :: nat
  bucket_name :: string
  key :: string
  version_id :: string
  is_latest :: bool
  is_delete_marker :: bool
  size_col :: int
  etag :: string
  last_modified :: int
  content_type :: string
  storage_path :: "string option"

section \<open>The record store and the session\<close>

text \<open>
  The state of the server: the two tables and the files under the storage root.

  Modelled from the spec: \<open>backend/database.py\<close> (\<open>get_session\<close>) is not among the
  source files. The spec treats the persistence engine as an ACID relational record
  store reached by predicate queries and ordered scans. So a table is the list of its
  rows in primary key order; a query filters it, \<open>order_by(last_modified.desc())\<close>
  sorts the result stably, and \<open>first()\<close> takes its first row; a new row gets a primary
  key above all those in use; the changes a handler makes through the session reach the
  table together at \<open>session.commit()\<close> and are dropped when the handler raises before
  it. Timestamps (\<open>datetime.utcnow\<close>) are integers, and every handler that draws a
  \<open>uuid.uuid4()\<close> or reads the clock takes the value drawn as an argument.
\<close>

record store =
  buckets :: "bucket list"
  objects :: "object_version list"
  files :: file_system

definition first :: "'a list \<Rightarrow> 'a option" where
  "first xs = (case xs of [] \<Rightarrow> None | x # _ \<Rightarrow> Some x)"

definition order_by_last_modified_desc :: "object_version list \<Rightarrow> object_version list" where
  "order_by_last_modified_desc rows = sort_key (\<lambda>r. - last_modified r) rows"

definition next_id :: "object_version list \<Rightarrow> nat" where
  "next_id rows = Suc (fold max (map id_col rows) 0)"

definition session_update :: "object_version \<Rightarrow> object_version list \<Rightarrow> object_version list" where
  "session_update ver rows = map (\<lambda>r. if id_col r = id_col ver then ver else r) rows"

definition session_delete :: "object_version \<Rightarrow> object_version list \<Rightarrow> object_version list" where
  "session_delete ver rows = filter (\<lambda>r. id_col r \<noteq> id_col ver) rows"

definition session_insert :: "object_version \<Rightarrow> object_version list \<Rightarrow> object_version list" where
  "session_insert ver rows = rows @ [ver\<lparr>id_col := next_id rows\<rparr>]"

text \<open>Python's truth value of an \<open>Optional[str]\<close>: neither \<open>None\<close> nor empty.\<close>

definition truthy :: "string option \<Rightarrow> bool" where
  "truthy x = (case x of None \<Rightarrow> False | Some v \<Rightarrow> v \<noteq> [])"

section \<open>s3\_routes.py\<close>

datatype http_exception = HTTPException nat string

record response =
  status_code :: nat
  headers :: "(string \<times> string) list"
  content :: bytes

fun str_nat :: "nat \<Rightarrow> string" where
  "str_nat n = (if n < 10 then [hexdigit n] else str_nat (n div 10) @ [hexdigit (n mod 10)])"

declare str_nat.simps [simp del]

definition str_int :: "int \<Rightarrow> string" where
  "str_int i = (if i < 0 then CHR ''-'' # str_nat (nat (- i)) else str_nat (nat i))"

text \<open>The rows of one (bucket, key) pair, as the handlers select them.\<close>

definition chain :: "store \<Rightarrow> string \<Rightarrow> string \<Rightarrow> object_version list" where
  "chain s b k = filter (\<lambda>r. bucket_name r = b \<and> key r = k) (objects s)"

definition select_bucket :: "store \<Rightarrow> string \<Rightarrow> bucket option" where
  "select_bucket s b = first (filter (\<lambda>x. name x = b) (buckets s))"

subsection \<open>ui\_rollback\<close>

fun rollback_loop ::
  "string \<Rightarrow> object_version list \<Rightarrow> bool \<Rightarrow> object_version list \<Rightarrow> file_system
     \<Rightarrow> bool \<times> object_version list \<times> file_system" where
  "rollback_loop vid [] target_found rows fs = (target_found, rows, fs)"
| "rollback_loop vid (ver # rest) target_found rows fs =
     (if version_id ver = vid then
        rollback_loop vid rest True (session_update (ver\<lparr>is_latest := True\<rparr>) rows) fs
      else if \<not> target_found then
        rollback_loop vid rest target_found (session_delete ver rows)
          (case storage_path ver of
             None \<Rightarrow> fs
           | Some p \<Rightarrow> if p \<noteq> [] then delete_physical_file p fs else fs)
      else if is_latest ver then
        rollback_loop vid rest target_found (session_update (ver\<lparr>is_latest := False\<rparr>) rows) fs
      else rollback_loop vid rest target_found rows fs)"

definition ui_rollback ::
  "store \<Rightarrow> string \<Rightarrow> string \<Rightarrow> string \<Rightarrow> (http_exception + (string \<times> string) list) \<times> store" where
  "ui_rollback s b k vid =
     (let all_versions = order_by_last_modified_desc (chain s b k)
      in case rollback_loop vid all_versions False (objects s) (files s) of
           (target_found, rows, fs) \<Rightarrow>
             if \<not> target_found then
               (Inl (HTTPException 404 ''Target version not found in history''),
                s\<lparr>files := fs\<rparr>)
             else
               (Inr [(''status'', ''success''),
                     (''message'', ''Rolled back to '' @ vid @ '', newer versions deleted.'')],
                s\<lparr>objects := rows, files := fs\<rparr>))"

subsection \<open>create\_bucket\<close>

definition create_bucket :: "store \<Rightarrow> string \<Rightarrow> int \<Rightarrow> (http_exception + response) \<times> store" where
  "create_bucket s b utcnow =
     (case select_bucket s b of
        Some existing \<Rightarrow> (Inl (HTTPException 409 ''BucketAlreadyExists''), s)
      | None \<Rightarrow>
          (Inr \<lparr>status_code = 200, headers = [], content = []\<rparr>,
           s\<lparr>buckets := buckets s @
                [\<lparr>name = b, creation_date = utcnow, versioning_enabled = True\<rparr>]\<rparr>))"

subsection \<open>put\_object\<close>

definition demote_old_latest :: "store \<Rightarrow> string \<Rightarrow> string \<Rightarrow> object_version list" where
  "demote_old_latest s b k =
     (case first (filter (\<lambda>r. bucket_name r = b \<and> key r = k \<and> is_latest r) (objects s)) of
        None \<Rightarrow> objects s
      | Some old_latest \<Rightarrow> session_update (old_latest\<lparr>is_latest := False\<rparr>) (objects s))"

definition put_object ::
  "(bytes \<Rightarrow> bytes) \<Rightarrow> store \<Rightarrow> string \<Rightarrow> string \<Rightarrow> bytes \<Rightarrow> string option \<Rightarrow> string \<Rightarrow> int
     \<Rightarrow> (http_exception + response) \<times> store" where
  "put_object md5 s b k body content_type_header uuid4 utcnow =
     (case select_bucket s b of
        None \<Rightarrow> (Inl (HTTPException 404 ''NoSuchBucket''), s)
      | Some bucket \<Rightarrow>
          (let ctype = (case content_type_header of
                          None \<Rightarrow> ''application/octet-stream'' | Some c \<Rightarrow> c);
               file_mock = \<lparr>data = body, pos = 0\<rparr>
           in case calculate_etag md5 file_mock of (hash_md5, file_mock') \<Rightarrow>
             let sz = int (length body);
                 vid = uuid4
             in case save_file md5 file_mock' b k vid (files s) of (spath, fs) \<Rightarrow>
               let rows = demote_old_latest s b k;
                   new_obj = \<lparr>id_col = 0, bucket_name = b, key = k, version_id = vid,
                              is_latest = True, is_delete_marker = False, size_col = sz,
                              etag = hash_md5, last_modified = utcnow, content_type = ctype,
                              storage_path = Some spath\<rparr>
               in (Inr \<lparr>status_code = 200,
                        headers = [(''x-amz-version-id'', vid), (''ETag'', hash_md5)],
                        content = []\<rparr>,
                   s\<lparr>objects := session_insert new_obj rows, files := fs\<rparr>)))"

subsection \<open>get\_object\<close>

definition select_object :: "store \<Rightarrow> string \<Rightarrow> string \<Rightarrow> string option \<Rightarrow> object_version option" where
  "select_object s b k versionId =
     (if truthy versionId then
        first (filter (\<lambda>r. version_id r = the versionId) (chain s b k))
      else first (filter is_latest (chain s b k)))"

definition get_object ::
  "store \<Rightarrow> string \<Rightarrow> string \<Rightarrow> string option \<Rightarrow> http_exception + response" where
  "get_object s b k versionId =
     (case select_object s b k versionId of
        None \<Rightarrow> Inl (HTTPException 404 ''NoSuchKey'')
      | Some obj \<Rightarrow>
          if is_delete_marker obj then Inl (HTTPException 404 ''NoSuchKey'')
          else
            (case (case storage_path obj of
                     None \<Rightarrow> None | Some p \<Rightarrow> get_file_content p (files s)) of
               None \<Rightarrow> Inl (HTTPException 500 ''InternalError: File missing on disk'')
             | Some file_stream \<Rightarrow>
                 Inr \<lparr>status_code = 200,
                      headers = [(''x-amz-version-id'', version_id obj),
                                 (''ETag'', etag obj),
                                 (''Content-Type'', content_type obj),
                                 (''Content-Length'', str_int (size_col obj))],
                      content = file_stream\<rparr>))"

subsection \<open>delete\_object\<close>

definition delete_object ::
  "store \<Rightarrow> string \<Rightarrow> string \<Rightarrow> string option \<Rightarrow> string \<Rightarrow> int
     \<Rightarrow> (http_exception + response) \<times> store" where
  "delete_object s b k versionId uuid4 utcnow =
     (if truthy versionId then
        (case first (filter (\<lambda>r. bucket_name r = b \<and> key r = k \<and>
                                 version_id r = the versionId) (objects s)) of
           Some obj \<Rightarrow>
             (let rows =
                    (if is_latest obj then
                       (case first (order_by_last_modified_desc
                                (filter (\<lambda>r. bucket_name r = b \<and> key r = k \<and>
                                   version_id r \<noteq> the versionId) (objects s))) of
                          None \<Rightarrow> objects s
                        | Some next_latest \<Rightarrow>
                            session_update (next_latest\<lparr>is_latest := True\<rparr>) (objects s))
                     else objects s);
                  fs = (case storage_path obj of
                          None \<Rightarrow> files s
                        | Some p \<Rightarrow>
                            if p \<noteq> [] then delete_physical_file p (files s) else files s)
              in (Inr \<lparr>status_code = 204, headers = [], content = []\<rparr>,
                  s\<lparr>objects := session_delete obj rows, files := fs\<rparr>))
         | None \<Rightarrow> (Inr \<lparr>status_code = 204, headers = [], content = []\<rparr>, s))
      else
        (case select_bucket s b of
           None \<Rightarrow> (Inl (HTTPException 404 ''NoSuchBucket''), s)
         | Some bucket \<Rightarrow>
             (let rows = demote_old_latest s b k;
                  vid = uuid4;
                  delete_marker = \<lparr>id_col = 0, bucket_name = b, key = k, version_id = vid,
                                    is_latest = True, is_delete_marker = True, size_col = 0,
                                    etag = [], last_modified = utcnow,
                                    content_type = ''application/octet-stream'',
                                    storage_path = None\<rparr>
              in (Inr \<lparr>status_code = 204,
                       headers = [(''x-amz-version-id'', vid), (''x-amz-delete-marker'', ''true'')],
                       content = []\<rparr>,
                  s\<lparr>objects := session_insert delete_marker rows\<rparr>))))"

section \<open>Invariants of the store and runs of requests\<close>

text \<open>Invariant I1: a chain that has a row has exactly one row that is latest.\<close>

definition I1 :: "store \<Rightarrow> bool" where
  "I1 s \<longleftrightarrow>
     (\<forall>r\<in>set (objects s).
        length (filter is_latest (chain s (bucket_name r) (key r))) = 1)"

text \<open>
  The relative path \<open>save_file\<close> returns for a version, and the first half of
  invariant I2: a delete marker has no storage path, every other row has the path of its
  version. (The second half, that the file exists, is not an invariant of the handlers.)
\<close>

definition locator :: "(bytes \<Rightarrow> bytes) \<Rightarrow> string \<Rightarrow> string \<Rightarrow> string \<Rightarrow> string" where
  "locator md5 b k vid = path_join (path_join b (hexdigest md5 (encode k))) vid"

definition I2 :: "(bytes \<Rightarrow> bytes) \<Rightarrow> store \<Rightarrow> bool" where
  "I2 md5 s \<longleftrightarrow>
     (\<forall>r\<in>set (objects s).
        storage_path r =
          (if is_delete_marker r then None
           else Some (locator md5 (bucket_name r) (key r) (version_id r))))"

text \<open>
  The shape of \<open>str(uuid.uuid4())\<close>: 36 characters, hyphens at positions 8, 13, 18 and
  23, lowercase hexadecimal digits elsewhere. Invariant I3: version ids are such strings
  and no two rows share one.
\<close>

definition is_uuid_str :: "string \<Rightarrow> bool" where
  "is_uuid_str v \<longleftrightarrow>
     length v = 36 \<and>
     list_all (\<lambda>(i, c). if i \<in> {8, 13, 18, 23} then c = CHR ''-'' else c \<in> set hexdigits)
       (enumerate 0 v)"

definition I3 :: "store \<Rightarrow> bool" where
  "I3 s \<longleftrightarrow>
     distinct (map version_id (objects s)) \<and>
     (\<forall>r\<in>set (objects s). is_uuid_str (version_id r))"

definition primary_key :: "store \<Rightarrow> bool" where
  "primary_key s \<longleftrightarrow> distinct (map id_col (objects s))"

definition wf :: "(bytes \<Rightarrow> bytes) \<Rightarrow> store \<Rightarrow> bool" where
  "wf md5 s \<longleftrightarrow> primary_key s \<and> I1 s \<and> I2 md5 s \<and> I3 s"

text \<open>
  The requests that change the store, each with the values it draws from its
  environment (the uuid and the time), and their sequential execution.
\<close>

datatype request =
    CreateBucket string int
  | PutObject string string bytes "string option" string int
  | DeleteObject string string "string option" string int
  | Rollback string string string

fun step :: "(bytes \<Rightarrow> bytes) \<Rightarrow> store \<Rightarrow> request \<Rightarrow> store" where
  "step md5 s (CreateBucket b utcnow) = snd (create_bucket s b utcnow)"
| "step md5 s (PutObject b k body ctype uuid4 utcnow) =
     snd (put_object md5 s b k body ctype uuid4 utcnow)"
| "step md5 s (DeleteObject b k versionId uuid4 utcnow) =
     snd (delete_object s b k versionId uuid4 utcnow)"
| "step md5 s (Rollback b k vid) = snd (ui_rollback s b k vid)"

fun run :: "(bytes \<Rightarrow> bytes) \<Rightarrow> store \<Rightarrow> request list \<Rightarrow> store" where
  "run md5 s [] = s"
| "run md5 s (r # rs) = run md5 (step md5 s r) rs"

text \<open>
  \<open>uuid.uuid4()\<close> is taken to draw a uuid string that no row carries. A delete that
  names a version draws none.
\<close>

fun draws_fresh :: "store \<Rightarrow> request \<Rightarrow> bool" where
  "draws_fresh s (PutObject b k body ctype uuid4 utcnow) =
     (is_uuid_str uuid4 \<and> uuid4 \<notin> set (map version_id (objects s)))"
| "draws_fresh s (DeleteObject b k versionId uuid4 utcnow) =
     (truthy versionId \<or> is_uuid_str uuid4 \<and> uuid4 \<notin> set (map version_id (objects s)))"
| "draws_fresh s (CreateBucket b utcnow) = True"
| "draws_fresh s (Rollback b k vid) = True"

fun fresh_run :: "(bytes \<Rightarrow> bytes) \<Rightarrow> store \<Rightarrow> request list \<Rightarrow> bool" where
  "fresh_run md5 s [] = True"
| "fresh_run md5 s (r # rs) = (draws_fresh s r \<and> fresh_run md5 (step md5 s r) rs)"

definition empty_store :: store where
  "empty_store = \<lparr>buckets = [], objects = [], files = Map.empty\<rparr>"

text \<open>
  The scan of \<open>ui_rollback\<close> meets the rows of a chain newest first. The rows it meets
  before the target are the newer ones, the rows it meets after it the older ones.
\<close>

definition newer_rows :: "store \<Rightarrow> string \<Rightarrow> string \<Rightarrow> string \<Rightarrow> object_version list" where
  "newer_rows s b k vid =
     takeWhile (\<lambda>r. version_id r \<noteq> vid) (order_by_last_modified_desc (chain s b k))"

definition older_rows :: "store \<Rightarrow> string \<Rightarrow> string \<Rightarrow> string \<Rightarrow> object_version list" where
  "older_rows s b k vid =
     tl (dropWhile (\<lambda>r. version_id r \<noteq> vid) (order_by_last_modified_desc (chain s b k)))"

text \<open>
  What both \<open>ui_rollback\<close> and \<open>delete_object\<close> do to the file of a row they
  destroy: \<open>if ver.storage_path: delete_physical_file(ver.storage_path)\<close>.
\<close>

definition delete_blob :: "object_version \<Rightarrow> file_system \<Rightarrow> file_system" where
  "delete_blob ver fs =
     (case storage_path ver of
        None \<Rightarrow> fs
      | Some p \<Rightarrow> if p \<noteq> [] then delete_physical_file p fs else fs)"

text \<open>
  The row \<open>delete_object\<close> promotes when it removes the latest row of a chain: the
  first of the other rows of the chain, newest first.
\<close>

definition next_latest :: "store \<Rightarrow> string \<Rightarrow> string \<Rightarrow> string \<Rightarrow> object_version option" where
  "next_latest s b k vid =
     first (order_by_last_modified_desc (filter (\<lambda>r. version_id r \<noteq> vid) (chain s b k)))"

section \<open>Example stores\<close>

text \<open>
  Concrete stores on which the theorems below are instantiated. The hash is the identity
  there, so the key \<open>k\<close> hashes to \<open>6b\<close>. \<open>store_one\<close> is the store after creating
  bucket \<open>b\<close> and putting the byte \<open>A\<close> under \<open>k\<close>; \<open>store_three\<close> after putting
  \<open>A\<close>, \<open>B\<close> and \<open>C\<close> under \<open>k\<close>.
\<close>

definition uuid1 :: string where
  "uuid1 = ''00000000-0000-4000-8000-000000000001''"

definition uuid2 :: string where
  "uuid2 = ''00000000-0000-4000-8000-000000000002''"

definition uuid3 :: string where
  "uuid3 = ''00000000-0000-4000-8000-000000000003''"

definition uuid4' :: string where
  "uuid4' = ''00000000-0000-4000-8000-000000000004''"

definition bucket_b :: bucket where
  "bucket_b = \<lparr>name = ''b'', creation_date = 0, versioning_enabled = True\<rparr>"

definition row_of :: "nat \<Rightarrow> string \<Rightarrow> bool \<Rightarrow> byte \<Rightarrow> int \<Rightarrow> object_version" where
  "row_of i vid latest c t =
     \<lparr>id_col = i, bucket_name = ''b'', key = ''k'', version_id = vid, is_latest = latest,
      is_delete_marker = False, size_col = 1,
      etag = [CHR 0x22] @ hex_byte c @ [CHR 0x22], last_modified = t,
      content_type = ''application/octet-stream'',
      storage_path = Some (''b/6b/'' @ vid)\<rparr>"

definition path_of :: "string \<Rightarrow> string" where
  "path_of vid = STORAGE_ROOT @ ''/b/6b/'' @ vid"

definition store_one :: store where
  "store_one =
     \<lparr>buckets = [bucket_b],
      objects = [row_of 1 uuid1 True 0x41 1],
      files = [path_of uuid1 \<mapsto> [0x41]]\<rparr>"

definition store_three :: store where
  "store_three =
     \<lparr>buckets = [bucket_b],
      objects = [row_of 1 uuid1 False 0x41 1, row_of 2 uuid2 False 0x42 2,
                 row_of 3 uuid3 True 0x43 3],
      files = [path_of uuid1 \<mapsto> [0x41], path_of uuid2 \<mapsto> [0x42],
               path_of uuid3 \<mapsto> [0x43]]\<rparr>"

text \<open>
  A run from the empty store: create the bucket, put \<open>A\<close> and \<open>B\<close> under \<open>k\<close>,
  delete the second version, tombstone the key, roll back to the first version.
\<close>

definition example_run :: "request list" where
  "example_run =
     [CreateBucket ''b'' 0,
      PutObject ''b'' ''k'' [0x41] None uuid1 1,
      PutObject ''b'' ''k'' [0x42] None uuid2 2,
      DeleteObject ''b'' ''k'' (Some uuid2) [] 3,
      DeleteObject ''b'' ''k'' None uuid3 4,
      Rollback ''b'' ''k'' uuid1]"

section \<open>The digest\<close>

lemma etag_loop_eq:
  "etag_loop f h =
     (h @ drop (pos f) (data f), f\<lparr>pos := pos f + length (drop (pos f) (data f))\<rparr>)"
proof (induction f h rule: etag_loop.induct)
  case (1 f h)
  define rest where "rest = drop (pos f) (data f)"
  show ?case
  proof (cases "take 4096 rest = []")
    case True
    then have "rest = []" by (cases rest) auto
    then show ?thesis
      unfolding rest_def by (subst etag_loop.simps) (simp add: read_def Let_def)
  next
    case False
    define f' where "f' = f\<lparr>pos := pos f + length (take 4096 rest)\<rparr>"
    have rd: "read 4096 f = (take 4096 rest, f')"
      by (simp add: read_def Let_def rest_def f'_def)
    have step: "etag_loop f h = etag_loop f' (h @ take 4096 rest)"
      using False by (subst etag_loop.simps) (simp add: rd)
    have ih: "etag_loop f' (h @ take 4096 rest) =
        ((h @ take 4096 rest) @ drop (pos f') (data f'),
         f'\<lparr>pos := pos f' + length (drop (pos f') (data f'))\<rparr>)"
      using False by (intro "1.IH") (simp_all add: rd)
    have d: "drop (pos f') (data f') = drop (length (take 4096 rest)) rest"
      by (simp add: f'_def rest_def add.commute del: length_take)
    have app: "take 4096 rest @ drop (length (take 4096 rest)) rest = rest"
      by (simp add: min_def)
    have "length (take 4096 rest @ drop (length (take 4096 rest)) rest) = length rest"
      by (simp only: app)
    then have len: "length (take 4096 rest) + length (drop (length (take 4096 rest)) rest)
        = length rest"
      by (simp only: length_append)
    have "etag_loop f h = (h @ rest, f\<lparr>pos := pos f + length rest\<rparr>)"
      unfolding step ih d
      by (simp add: app len f'_def add.assoc del: length_take length_drop drop_take)
    then show ?thesis by (simp add: rest_def)
  qed
qed

lemma calculate_etag_eq:
  "calculate_etag md5 f = ([CHR 0x22] @ hexdigest md5 (data f) @ [CHR 0x22], f\<lparr>pos := 0\<rparr>)"
  by (simp add: calculate_etag_def seek_def etag_loop_eq)

lemma hexdigit_lower: "hexdigit n \<in> set hexdigits"
proof -
  have "n mod 16 < length hexdigits" by (simp add: hexdigits_def)
  then show ?thesis unfolding hexdigit_def by (rule nth_mem)
qed

lemma is_lower_hex_hexdigest: "is_lower_hex (hexdigest md5 h)"
  by (simp add: is_lower_hex_def hexdigest_def list_all_iff hex_byte_def hexdigit_lower)

lemma hexdigit_inj: "m < 16 \<Longrightarrow> n < 16 \<Longrightarrow> hexdigit m = hexdigit n \<Longrightarrow> m = n"
proof -
  assume a: "m < 16" "n < 16" "hexdigit m = hexdigit n"
  have d: "distinct hexdigits" by (simp add: hexdigits_def)
  have l: "length hexdigits = 16" by (simp add: hexdigits_def)
  from a have "hexdigits ! m = hexdigits ! n" by (simp add: hexdigit_def)
  with d l a show "m = n" by (simp add: nth_eq_iff_index_eq)
qed

lemma hex_byte_inj: "hex_byte v = hex_byte w \<Longrightarrow> v = w"
proof -
  assume "hex_byte v = hex_byte w"
  then have 1: "hexdigit (unat v div 16) = hexdigit (unat w div 16)"
    and 2: "hexdigit (unat v mod 16) = hexdigit (unat w mod 16)"
    by (simp_all add: hex_byte_def)
  have bv: "unat v < 256" using unsigned_less[of v] by simp
  have bw: "unat w < 256" using unsigned_less[of w] by simp
  from 1 bv bw have d: "unat v div 16 = unat w div 16"
    by (intro hexdigit_inj) auto
  from 2 have m: "unat v mod 16 = unat w mod 16"
    by (intro hexdigit_inj) auto
  from d m have "unat v = unat w"
    by (metis div_mult_mod_eq)
  then show "v = w" by (simp add: word_unat_eq_iff)
qed

lemma concat_hex_inj:
  "concat (map hex_byte xs) = concat (map hex_byte ys) \<Longrightarrow> xs = ys"
proof (induction xs arbitrary: ys)
  case Nil
  then show ?case by (cases ys) (auto simp: hex_byte_def)
next
  case (Cons x xs)
  then show ?case
  proof (cases ys)
    case Nil
    with Cons.prems show ?thesis by (simp add: hex_byte_def)
  next
    case (Cons y ys')
    with Cons.prems have "hex_byte x @ concat (map hex_byte xs)
        = hex_byte y @ concat (map hex_byte ys')" by simp
    moreover have "length (hex_byte x) = length (hex_byte y)" by (simp add: hex_byte_def)
    ultimately have "hex_byte x = hex_byte y"
      and "concat (map hex_byte xs) = concat (map hex_byte ys')" by simp_all
    with Cons.IH Cons show ?thesis by (simp add: hex_byte_inj)
  qed
qed

lemma hexdigest_inj: "hexdigest md5 x = hexdigest md5 y \<longleftrightarrow> md5 x = md5 y"
  by (auto simp: hexdigest_def dest: concat_hex_inj)

text \<open>
  Claim C9. The digest (\<open>calculate_etag\<close>) is a function of the bytes of the file
  alone, wherever its cursor stands: equal contents give equal digests. The result is a
  double quote, a string of lowercase hexadecimal digits, and a double quote. Two
  contents get the same digest exactly when the underlying hash collides on them.
\<close>

theorem digest_deterministic_quoted_hex:
  "(data f = data g \<longrightarrow> fst (calculate_etag md5 f) = fst (calculate_etag md5 g)) \<and>
   (\<exists>h. fst (calculate_etag md5 f) = [CHR 0x22] @ h @ [CHR 0x22] \<and> is_lower_hex h) \<and>
   (fst (calculate_etag md5 f) = fst (calculate_etag md5 g) \<longleftrightarrow> md5 (data f) = md5 (data g))"
  by (simp add: calculate_etag_eq hexdigest_inj is_lower_hex_hexdigest)

theorem digest_deterministic_quoted_hex_witness:
  "data \<lparr>data = [0x61, 0x62], pos = 1\<rparr> = data \<lparr>data = [0x61, 0x62 :: byte], pos = 0\<rparr> \<and>
   fst (calculate_etag (\<lambda>b. b) \<lparr>data = [0x61, 0x62], pos = 1\<rparr>) =
   fst (calculate_etag (\<lambda>b. b) \<lparr>data = [0x61, 0x62], pos = 0\<rparr>)"
  using digest_deterministic_quoted_hex
    [of "\<lparr>data = [0x61, 0x62], pos = 1\<rparr>" "\<lparr>data = [0x61, 0x62], pos = 0\<rparr>" "\<lambda>b. b"]
  by simp


section \<open>Queries and the session\<close>

lemma first_eq_None [simp]: "first xs = None \<longleftrightarrow> xs = []"
  by (cases xs) (simp_all add: first_def)

lemma first_Cons [simp]: "first (x # xs) = Some x"
  by (simp add: first_def)

lemma first_Nil [simp]: "first [] = None"
  by (simp add: first_def)

lemma first_SomeD: "first xs = Some x \<Longrightarrow> \<exists>ys. xs = x # ys"
  by (cases xs) simp_all

lemma chain_objects_update [simp]:
  "chain (s\<lparr>objects := xs\<rparr>) b k = filter (\<lambda>r. bucket_name r = b \<and> key r = k) xs"
  by (simp add: chain_def)

lemma demote_old_latest_empty_chain:
  "chain s b k = [] \<Longrightarrow> demote_old_latest s b k = objects s"
proof -
  assume a: "chain s b k = []"
  have "filter (\<lambda>r. bucket_name r = b \<and> key r = k \<and> is_latest r) (objects s)
      = filter is_latest (chain s b k)"
    by (auto simp: chain_def intro: filter_cong)
  with a show ?thesis by (simp add: demote_old_latest_def)
qed

section \<open>Tombstoning a key that was never written\<close>

text \<open>
  Claim C10. In an existing bucket, a delete without a version on a key whose chain is
  empty answers 204 and leaves a chain of one row: a delete marker that is current and
  has no storage path. The key comes into existence as a chain of a delete marker only.
\<close>

theorem delete_marker_on_empty_chain:
  fixes s :: store and b k uuid4 :: string and utcnow :: int
  assumes "select_bucket s b \<noteq> None" and "chain s b k = []"
  defines "marker \<equiv> \<lparr>id_col = next_id (objects s), bucket_name = b, key = k,
      version_id = uuid4, is_latest = True, is_delete_marker = True, size_col = 0,
      etag = [], last_modified = utcnow, content_type = ''application/octet-stream'',
      storage_path = None\<rparr>"
  shows "delete_object s b k None uuid4 utcnow =
      (Inr \<lparr>status_code = 204,
            headers = [(''x-amz-version-id'', uuid4), (''x-amz-delete-marker'', ''true'')],
            content = []\<rparr>,
       s\<lparr>objects := objects s @ [marker]\<rparr>)
    \<and> chain (snd (delete_object s b k None uuid4 utcnow)) b k = [marker]
    \<and> is_latest marker \<and> is_delete_marker marker \<and> storage_path marker = None"
proof -
  obtain bk where bk: "select_bucket s b = Some bk" using assms(1) by auto
  have d: "delete_object s b k None uuid4 utcnow =
      (Inr \<lparr>status_code = 204,
            headers = [(''x-amz-version-id'', uuid4), (''x-amz-delete-marker'', ''true'')],
            content = []\<rparr>,
       s\<lparr>objects := objects s @ [marker]\<rparr>)"
    by (simp add: delete_object_def truthy_def bk Let_def session_insert_def marker_def
        demote_old_latest_empty_chain[OF assms(2)])
  have "filter (\<lambda>r. bucket_name r = b \<and> key r = k) (objects s) = []"
    using assms(2) by (simp add: chain_def)
  then have "chain (s\<lparr>objects := objects s @ [marker]\<rparr>) b k = [marker]"
    by (simp add: marker_def)
  with d show ?thesis by (simp add: marker_def)
qed

theorem delete_marker_on_empty_chain_witness:
  "select_bucket \<lparr>buckets = [\<lparr>name = ''b'', creation_date = 0, versioning_enabled = True\<rparr>],
         objects = [], files = Map.empty\<rparr> ''b'' \<noteq> None \<and>
   chain \<lparr>buckets = [\<lparr>name = ''b'', creation_date = 0, versioning_enabled = True\<rparr>],
         objects = [], files = Map.empty\<rparr> ''b'' ''k'' = [] \<and>
   chain (snd (delete_object
       \<lparr>buckets = [\<lparr>name = ''b'', creation_date = 0, versioning_enabled = True\<rparr>],
         objects = [], files = Map.empty\<rparr> ''b'' ''k'' None ''u1'' 7)) ''b'' ''k''
     = [\<lparr>id_col = 1, bucket_name = ''b'', key = ''k'',
      version_id = ''u1'', is_latest = True, is_delete_marker = True, size_col = 0,
      etag = [], last_modified = 7, content_type = ''application/octet-stream'',
      storage_path = None\<rparr>]"
proof -
  let ?s = "\<lparr>buckets = [\<lparr>name = ''b'', creation_date = 0, versioning_enabled = True\<rparr>],
         objects = [], files = Map.empty\<rparr>"
  have 1: "select_bucket ?s ''b'' \<noteq> None" by (simp add: select_bucket_def)
  have 2: "chain ?s ''b'' ''k'' = []" by (simp add: chain_def)
  from delete_marker_on_empty_chain[OF 1 2, of "''u1''" 7] 1 2
  show ?thesis by (simp add: next_id_def chain_def)
qed


section \<open>Deleting a version that is not there\<close>

text \<open>
  Claim C8, as amended. For every bucket, key and non-empty version id such that the
  chain has no row with that version id, the delete answers 204 and returns the store as
  it was: no row added, removed or changed, no file deleted.
\<close>

theorem delete_absent_version_noop:
  assumes "vid \<noteq> []"
    and "filter (\<lambda>r. version_id r = vid) (chain s b k) = []"
  shows "delete_object s b k (Some vid) uuid4 utcnow =
      (Inr \<lparr>status_code = 204, headers = [], content = []\<rparr>, s)"
proof -
  have "filter (\<lambda>r. bucket_name r = b \<and> key r = k \<and> version_id r = vid) (objects s)
      = filter (\<lambda>r. version_id r = vid) (chain s b k)"
    by (auto simp: chain_def intro: filter_cong)
  with assms show ?thesis
    by (simp add: delete_object_def truthy_def)
qed

theorem delete_absent_version_noop_witness:
  "''v9'' \<noteq> [] \<and>
   filter (\<lambda>r. version_id r = ''v9'')
     (chain \<lparr>buckets = [\<lparr>name = ''b'', creation_date = 0, versioning_enabled = True\<rparr>],
         objects = [\<lparr>id_col = 1, bucket_name = ''b'', key = ''k'',
      version_id = ''v1'', is_latest = True, is_delete_marker = True, size_col = 0,
      etag = [], last_modified = 7, content_type = ''application/octet-stream'',
      storage_path = None\<rparr>], files = Map.empty\<rparr> ''b'' ''k'') = [] \<and>
   delete_object \<lparr>buckets = [\<lparr>name = ''b'', creation_date = 0, versioning_enabled = True\<rparr>],
         objects = [\<lparr>id_col = 1, bucket_name = ''b'', key = ''k'',
      version_id = ''v1'', is_latest = True, is_delete_marker = True, size_col = 0,
      etag = [], last_modified = 7, content_type = ''application/octet-stream'',
      storage_path = None\<rparr>], files = Map.empty\<rparr> ''b'' ''k'' (Some ''v9'') ''u'' 8 =
      (Inr \<lparr>status_code = 204, headers = [], content = []\<rparr>,
       \<lparr>buckets = [\<lparr>name = ''b'', creation_date = 0, versioning_enabled = True\<rparr>],
         objects = [\<lparr>id_col = 1, bucket_name = ''b'', key = ''k'',
      version_id = ''v1'', is_latest = True, is_delete_marker = True, size_col = 0,
      etag = [], last_modified = 7, content_type = ''application/octet-stream'',
      storage_path = None\<rparr>], files = Map.empty\<rparr>)"
proof -
  let ?s = "\<lparr>buckets = [\<lparr>name = ''b'', creation_date = 0, versioning_enabled = True\<rparr>],
         objects = [\<lparr>id_col = 1, bucket_name = ''b'', key = ''k'',
      version_id = ''v1'', is_latest = True, is_delete_marker = True, size_col = 0,
      etag = [], last_modified = 7, content_type = ''application/octet-stream'',
      storage_path = None\<rparr>], files = Map.empty\<rparr>"
  have 1: "''v9'' \<noteq> []" by simp
  have 2: "filter (\<lambda>r. version_id r = ''v9'') (chain ?s ''b'' ''k'') = []"
    by (simp add: chain_def)
  from delete_absent_version_noop[OF 1 2, of "''u''" 8] 1 2 show ?thesis by simp
qed

text \<open>
  An empty version id counts as no version id (\<open>if versionId:\<close>): no row carries it,
  yet the delete inserts a delete marker.
\<close>

theorem delete_empty_version_counterexample:
  "filter (\<lambda>r. version_id r = [])
     (chain \<lparr>buckets = [\<lparr>name = ''b'', creation_date = 0, versioning_enabled = True\<rparr>],
         objects = [], files = Map.empty\<rparr> ''b'' ''k'') = [] \<and>
   objects (snd (delete_object
       \<lparr>buckets = [\<lparr>name = ''b'', creation_date = 0, versioning_enabled = True\<rparr>],
         objects = [], files = Map.empty\<rparr> ''b'' ''k'' (Some []) ''u1'' 7))
     = [\<lparr>id_col = 1, bucket_name = ''b'', key = ''k'',
      version_id = ''u1'', is_latest = True, is_delete_marker = True, size_col = 0,
      etag = [], last_modified = 7, content_type = ''application/octet-stream'',
      storage_path = None\<rparr>] \<and>
   objects \<lparr>buckets = [\<lparr>name = ''b'', creation_date = 0, versioning_enabled = True\<rparr>],
         objects = [], files = Map.empty\<rparr> = []"
  by (simp add: chain_def delete_object_def truthy_def select_bucket_def Let_def
      demote_old_latest_def session_insert_def next_id_def)


section \<open>Demotion of the old latest row\<close>

lemma I1_at_most_one: 
  assumes "I1 s" shows "length (filter is_latest (chain s b k)) \<le> 1"
proof (cases "chain s b k")
  case Nil
  then show ?thesis by simp
next
  case (Cons r rs)
  then have "r \<in> set (chain s b k)" by simp
  then have "r \<in> set (objects s)" "bucket_name r = b" "key r = k"
    by (simp_all add: chain_def)
  with assms show ?thesis by (auto simp: I1_def)
qed

lemma filter_chain_latest:
  "filter (\<lambda>r. bucket_name r = b \<and> key r = k \<and> is_latest r) (objects s)
     = filter is_latest (chain s b k)"
  by (auto simp: chain_def intro: filter_cong)

lemma demote_old_latest_no_latest:
  assumes "I1 s"
  shows "filter (\<lambda>r. bucket_name r = b \<and> key r = k \<and> is_latest r)
           (demote_old_latest s b k) = []"
proof (cases "filter is_latest (chain s b k)")
  case Nil
  then have "demote_old_latest s b k = objects s"
    by (simp add: demote_old_latest_def filter_chain_latest)
  with Nil show ?thesis by (simp add: chain_def)
next
  case (Cons old rest)
  have "length (filter is_latest (chain s b k)) \<le> 1" by (rule I1_at_most_one[OF assms])
  with Cons have rest: "rest = []" by simp
  have only: "r = old" if "r \<in> set (objects s)" "bucket_name r = b" "key r = k" "is_latest r" for r
  proof -
    from that have "r \<in> set (filter is_latest (chain s b k))" by (simp add: chain_def)
    with Cons rest show ?thesis by simp
  qed
  have d: "demote_old_latest s b k = session_update (old\<lparr>is_latest := False\<rparr>) (objects s)"
    by (simp add: demote_old_latest_def filter_chain_latest Cons)
  show ?thesis
    unfolding d session_update_def
    by (auto simp: filter_empty_conv dest: only)
qed

lemma chain_session_insert:
  "filter (\<lambda>r. bucket_name r = b \<and> key r = k) (session_insert ver rows) =
     filter (\<lambda>r. bucket_name r = b \<and> key r = k) rows @
     (if bucket_name ver = b \<and> key ver = k then [ver\<lparr>id_col := next_id rows\<rparr>] else [])"
  by (simp add: session_insert_def)

lemmas example_defs = store_one_def store_three_def row_of_def bucket_b_def path_of_def
  uuid1_def uuid2_def uuid3_def uuid4'_def STORAGE_ROOT_def

lemmas path_defs = get_file_path_def path_join_def is_abs_def ends_with_sep_def sep_def

lemmas hex_defs = hex_byte_def hexdigit_def hexdigits_def

lemma I1_store_one: "I1 store_one"
  by (simp add: I1_def chain_def example_defs)

section \<open>When a get finds no key\<close>

text \<open>
  Claim C6, as amended. A get fails with NoSuchKey exactly when no row matches or the
  first row that matches is a delete marker, where the rows that match are those of the
  requested version id when a non-empty one is given, and the latest rows of the chain
  when none or an empty one is given. In particular, in a store where I1 holds, after a
  delete without a version on a key of an existing bucket a get without a version on
  that key fails with NoSuchKey, the very answer a key that was never written gets.
\<close>

theorem get_object_no_such_key:
  "(vid \<noteq> [] \<longrightarrow>
      (get_object s b k (Some vid) = Inl (HTTPException 404 ''NoSuchKey'') \<longleftrightarrow>
         (case filter (\<lambda>r. version_id r = vid) (chain s b k) of
            [] \<Rightarrow> True | obj # _ \<Rightarrow> is_delete_marker obj))) \<and>
   (versionId = None \<or> versionId = Some [] \<longrightarrow>
      (get_object s b k versionId = Inl (HTTPException 404 ''NoSuchKey'') \<longleftrightarrow>
         (case filter is_latest (chain s b k) of
            [] \<Rightarrow> True | obj # _ \<Rightarrow> is_delete_marker obj))) \<and>
   (I1 s \<and> select_bucket s b \<noteq> None \<longrightarrow>
      get_object (snd (delete_object s b k None uuid4 utcnow)) b k None =
        Inl (HTTPException 404 ''NoSuchKey'')) \<and>
   (chain s b k = [] \<longrightarrow> get_object s b k None = Inl (HTTPException 404 ''NoSuchKey''))"
proof (intro conjI impI)
  assume "vid \<noteq> []"
  then show "get_object s b k (Some vid) = Inl (HTTPException 404 ''NoSuchKey'') \<longleftrightarrow>
         (case filter (\<lambda>r. version_id r = vid) (chain s b k) of
            [] \<Rightarrow> True | obj # _ \<Rightarrow> is_delete_marker obj)"
    by (auto simp: get_object_def select_object_def truthy_def first_def
        split: list.splits option.splits)
next
  assume "versionId = None \<or> versionId = Some []"
  then show "get_object s b k versionId = Inl (HTTPException 404 ''NoSuchKey'') \<longleftrightarrow>
         (case filter is_latest (chain s b k) of
            [] \<Rightarrow> True | obj # _ \<Rightarrow> is_delete_marker obj)"
    by (auto simp: get_object_def select_object_def truthy_def first_def
        split: list.splits option.splits)
next
  assume a: "I1 s \<and> select_bucket s b \<noteq> None"
  then obtain bk where bk: "select_bucket s b = Some bk" by auto
  have "filter (\<lambda>r. bucket_name r = b \<and> key r = k \<and> is_latest r)
      (demote_old_latest s b k) = []"
    using a by (simp add: demote_old_latest_no_latest)
  then show "get_object (snd (delete_object s b k None uuid4 utcnow)) b k None =
        Inl (HTTPException 404 ''NoSuchKey'')"
    by (simp add: delete_object_def truthy_def bk Let_def get_object_def select_object_def
        chain_session_insert)
next
  assume "chain s b k = []"
  then show "get_object s b k None = Inl (HTTPException 404 ''NoSuchKey'')"
    by (simp add: get_object_def select_object_def truthy_def)
qed

theorem get_object_no_such_key_witness:
  "uuid4' \<noteq> [] \<and>
   filter (\<lambda>r. version_id r = uuid4') (chain store_one ''b'' ''k'') = [] \<and>
   get_object store_one ''b'' ''k'' (Some uuid4') = Inl (HTTPException 404 ''NoSuchKey'') \<and>
   I1 store_one \<and> select_bucket store_one ''b'' \<noteq> None \<and>
   get_object (snd (delete_object store_one ''b'' ''k'' None uuid2 2)) ''b'' ''k'' None =
     Inl (HTTPException 404 ''NoSuchKey'') \<and>
   chain store_one ''b'' ''never'' = [] \<and>
   get_object store_one ''b'' ''never'' None = Inl (HTTPException 404 ''NoSuchKey'')"
proof -
  have 1: "uuid4' \<noteq> []" by (simp add: uuid4'_def)
  have 2: "filter (\<lambda>r. version_id r = uuid4') (chain store_one ''b'' ''k'') = []"
    by (simp add: chain_def example_defs)
  have "select_bucket store_one ''b'' \<noteq> None"
    by (simp add: select_bucket_def example_defs)
  with I1_store_one have 3: "I1 store_one \<and> select_bucket store_one ''b'' \<noteq> None" ..
  have 4: "chain store_one ''b'' ''never'' = []"
    by (simp add: chain_def example_defs)
  from get_object_no_such_key[of uuid4' store_one "''b''" "''k''" None uuid2 2]
    get_object_no_such_key[of uuid4' store_one "''b''" "''never''" None uuid2 2]
    1 2 3 4
  show ?thesis by simp
qed

text \<open>
  An empty version id counts as no version id (\<open>if versionId:\<close>): no row of the
  chain carries it, yet the get answers with the latest row.
\<close>

theorem get_object_empty_version_counterexample:
  "filter (\<lambda>r. version_id r = []) (chain store_one ''b'' ''k'') = [] \<and>
   get_object store_one ''b'' ''k'' (Some []) =
     Inr \<lparr>status_code = 200,
          headers = [(''x-amz-version-id'', uuid1),
                     (''ETag'', [CHR 0x22, CHR ''4'', CHR ''1'', CHR 0x22]),
                     (''Content-Type'', ''application/octet-stream''),
                     (''Content-Length'', ''1'')],
          content = [0x41]\<rparr>"
  by (simp add: chain_def get_object_def select_object_def truthy_def get_file_content_def
      path_defs hex_defs example_defs str_int_def str_nat.simps)


section \<open>Paths and the effect of a put\<close>

lemma is_abs_Nil [simp]: "\<not> is_abs []"
  by (simp add: is_abs_def)

lemma is_abs_Cons [simp]: "is_abs (c # p) \<longleftrightarrow> c = sep"
  by (simp add: is_abs_def)

lemma is_abs_append: "is_abs (x @ y) = (if x = [] then is_abs y else is_abs x)"
  by (cases x) simp_all

lemma ends_with_sep_Nil [simp]: "\<not> ends_with_sep []"
  by (simp add: ends_with_sep_def)

lemma ends_with_sep_snoc [simp]: "ends_with_sep (p @ [c]) \<longleftrightarrow> c = sep"
  by (simp add: ends_with_sep_def)

lemma ends_with_sep_single [simp]: "ends_with_sep [c] \<longleftrightarrow> c = sep"
  by (simp add: ends_with_sep_def)

lemma ends_with_sep_append:
  "ends_with_sep (x @ y) = (if y = [] then ends_with_sep x else ends_with_sep y)"
proof (cases y rule: rev_cases)
  case Nil
  then show ?thesis by simp
next
  case (snoc ys c)
  have "ends_with_sep ((x @ ys) @ [c]) = ends_with_sep (ys @ [c])"
    by (simp only: ends_with_sep_snoc)
  with snoc show ?thesis by simp
qed

lemma ends_with_sep_Cons:
  "ends_with_sep (c # p) = (if p = [] then c = sep else ends_with_sep p)"
  using ends_with_sep_append[of "[c]" p] by simp

lemma path_join_assoc: "path_join (path_join a b) c = path_join a (path_join b c)"
proof (cases "is_abs c")
  case True
  then show ?thesis by (simp add: path_join_def)
next
  case c: False
  show ?thesis
  proof (cases "b = []")
    case True
    with c show ?thesis
      by (auto simp: path_join_def ends_with_sep_append)
  next
    case False
    with c show ?thesis
      by (auto simp: path_join_def ends_with_sep_append ends_with_sep_Cons is_abs_append)
  qed
qed

lemma get_file_path_locator:
  "get_file_path (locator md5 b k vid) =
     path_join (path_join (path_join STORAGE_ROOT b) (hexdigest md5 (encode k))) vid"
  by (simp add: get_file_path_def locator_def path_join_assoc)

lemma save_file_eq:
  "save_file md5 f b k vid fs =
     (locator md5 b k vid, fs(get_file_path (locator md5 b k vid) \<mapsto> drop (pos f) (data f)))"
  by (simp add: save_file_def Let_def get_file_path_locator) (simp add: locator_def)

lemma id_col_session_update [simp]:
  "map id_col (session_update ver rows) = map id_col rows"
  by (simp add: session_update_def)

lemma id_col_demote [simp]: "map id_col (demote_old_latest s b k) = map id_col (objects s)"
  by (simp add: demote_old_latest_def split: option.splits)

lemma next_id_cong: "map id_col xs = map id_col ys \<Longrightarrow> next_id xs = next_id ys"
  by (simp add: next_id_def)

lemma demote_old_latest_eq:
  assumes "primary_key s" and "I1 s"
  shows "demote_old_latest s b k =
     map (\<lambda>r. if bucket_name r = b \<and> key r = k \<and> is_latest r
               then r\<lparr>is_latest := False\<rparr> else r) (objects s)"
proof (cases "filter is_latest (chain s b k)")
  case Nil
  then have none: "\<not> (bucket_name r = b \<and> key r = k \<and> is_latest r)" if "r \<in> set (objects s)" for r
    using that by (auto simp: chain_def filter_empty_conv)
  have "demote_old_latest s b k = objects s"
    using Nil by (simp add: demote_old_latest_def filter_chain_latest)
  also have "\<dots> = map (\<lambda>r. if bucket_name r = b \<and> key r = k \<and> is_latest r
               then r\<lparr>is_latest := False\<rparr> else r) (objects s)"
    using none by (simp add: map_idI)
  finally show ?thesis .
next
  case (Cons old rest)
  have "length (filter is_latest (chain s b k)) \<le> 1" by (rule I1_at_most_one[OF assms(2)])
  with Cons have rest: "rest = []" by simp
  have mem: "r \<in> set (filter is_latest (chain s b k)) \<longleftrightarrow> r = old" for r
    using Cons rest by simp
  from mem[of old] have old: "old \<in> set (objects s)" "bucket_name old = b" "key old = k"
      "is_latest old"
    by (simp_all add: chain_def)
  have only: "(bucket_name r = b \<and> key r = k \<and> is_latest r) \<longleftrightarrow> r = old"
    if "r \<in> set (objects s)" for r
    using mem[of r] that by (auto simp: chain_def)
  have ids: "id_col r = id_col old \<longleftrightarrow> r = old" if "r \<in> set (objects s)" for r
    using assms(1) that old(1) by (auto simp: primary_key_def distinct_map inj_on_def)
  have d: "demote_old_latest s b k = session_update (old\<lparr>is_latest := False\<rparr>) (objects s)"
    by (simp add: demote_old_latest_def filter_chain_latest Cons)
  show ?thesis
    unfolding d session_update_def
    by (rule map_cong) (auto simp: only ids)
qed

lemma put_object_eq:
  assumes "select_bucket s b \<noteq> None"
  shows "put_object md5 s b k body ctype uuid4 utcnow =
    (Inr \<lparr>status_code = 200,
          headers = [(''x-amz-version-id'', uuid4),
                     (''ETag'', [CHR 0x22] @ hexdigest md5 body @ [CHR 0x22])],
          content = []\<rparr>,
     s\<lparr>objects := demote_old_latest s b k @
          [\<lparr>id_col = next_id (objects s), bucket_name = b, key = k, version_id = uuid4,
            is_latest = True, is_delete_marker = False, size_col = int (length body),
            etag = [CHR 0x22] @ hexdigest md5 body @ [CHR 0x22], last_modified = utcnow,
            content_type = (case ctype of None \<Rightarrow> ''application/octet-stream'' | Some c \<Rightarrow> c),
            storage_path = Some (locator md5 b k uuid4)\<rparr>],
        files := (files s)(get_file_path (locator md5 b k uuid4) \<mapsto> body)\<rparr>)"
proof -
  obtain bk where bk: "select_bucket s b = Some bk" using assms by auto
  have n: "next_id (demote_old_latest s b k) = next_id (objects s)"
    by (rule next_id_cong) simp
  show ?thesis
    by (simp add: put_object_def bk calculate_etag_eq save_file_eq Let_def session_insert_def n)
qed

section \<open>Round trip\<close>

text \<open>
  Claim C7. In a store where I1 holds, a put of a content under a key of an existing
  bucket followed by a get of that key without a version returns the very bytes of the
  content, the digest of the content, its length as the size, and the version id the put
  returned.
\<close>

theorem put_then_get_round_trip:
  assumes "I1 s" and "select_bucket s b \<noteq> None"
  shows "fst (put_object md5 s b k body ctype uuid4 utcnow) =
      Inr \<lparr>status_code = 200,
           headers = [(''x-amz-version-id'', uuid4),
                      (''ETag'', fst (calculate_etag md5 \<lparr>data = body, pos = 0\<rparr>))],
           content = []\<rparr>
    \<and> get_object (snd (put_object md5 s b k body ctype uuid4 utcnow)) b k None =
      Inr \<lparr>status_code = 200,
           headers = [(''x-amz-version-id'', uuid4),
                      (''ETag'', fst (calculate_etag md5 \<lparr>data = body, pos = 0\<rparr>)),
                      (''Content-Type'',
                         case ctype of None \<Rightarrow> ''application/octet-stream'' | Some c \<Rightarrow> c),
                      (''Content-Length'', str_int (int (length body)))],
           content = body\<rparr>"
proof -
  have "filter (\<lambda>r. bucket_name r = b \<and> key r = k \<and> is_latest r)
      (demote_old_latest s b k) = []"
    using assms(1) by (rule demote_old_latest_no_latest)
  then show ?thesis
    by (simp add: put_object_eq[OF assms(2)] calculate_etag_eq get_object_def
        select_object_def truthy_def get_file_content_def chain_def)
qed

theorem put_then_get_round_trip_witness:
  "I1 store_one \<and> select_bucket store_one ''b'' \<noteq> None \<and>
   get_object (snd (put_object (\<lambda>x. x) store_one ''b'' ''k'' [0x42] None uuid2 2))
       ''b'' ''k'' None =
     Inr \<lparr>status_code = 200,
          headers = [(''x-amz-version-id'', uuid2),
                     (''ETag'', [CHR 0x22, CHR ''4'', CHR ''2'', CHR 0x22]),
                     (''Content-Type'', ''application/octet-stream''),
                     (''Content-Length'', ''1'')],
          content = [0x42]\<rparr>"
proof -
  have 1: "select_bucket store_one ''b'' \<noteq> None"
    by (simp add: select_bucket_def example_defs)
  have 2: "fst (calculate_etag (\<lambda>x. x) \<lparr>data = [0x42], pos = 0\<rparr>) =
      [CHR 0x22, CHR ''4'', CHR ''2'', CHR 0x22]"
    by (simp add: calculate_etag_eq hexdigest_def hex_defs)
  have 3: "str_int (int (length [0x42 :: byte])) = ''1''"
    by (simp add: str_int_def str_nat.simps hex_defs)
  from put_then_get_round_trip[OF I1_store_one 1, of "\<lambda>x. x" "''k''" "[0x42]" None uuid2 2]
  have "get_object (snd (put_object (\<lambda>x. x) store_one ''b'' ''k'' [0x42] None uuid2 2))
       ''b'' ''k'' None =
     Inr \<lparr>status_code = 200,
          headers = [(''x-amz-version-id'', uuid2),
                     (''ETag'', [CHR 0x22, CHR ''4'', CHR ''2'', CHR 0x22]),
                     (''Content-Type'', ''application/octet-stream''),
                     (''Content-Length'', ''1'')],
          content = [0x42]\<rparr>"
    unfolding 2 3 by simp
  with I1_store_one 1 show ?thesis by simp
qed


section \<open>The scan of a rollback\<close>

lemma rollback_loop_newer:
  assumes "\<forall>ver\<in>set pre. version_id ver \<noteq> vid"
  shows "rollback_loop vid (pre @ rest) False rows fs =
     rollback_loop vid rest False
       (filter (\<lambda>r. id_col r \<notin> id_col ` set pre) rows) (fold delete_blob pre fs)"
  using assms
proof (induction pre arbitrary: rows fs)
  case Nil
  then show ?case by simp
next
  case (Cons ver pre)
  have f: "filter (\<lambda>r. id_col r \<notin> id_col ` set pre) (session_delete ver rows) =
      filter (\<lambda>r. id_col r \<notin> id_col ` set (ver # pre)) rows"
    by (auto simp: session_delete_def intro: filter_cong)
  have b: "(case storage_path ver of None \<Rightarrow> fs
      | Some p \<Rightarrow> if p \<noteq> [] then delete_physical_file p fs else fs) = delete_blob ver fs"
    by (simp add: delete_blob_def)
  from Cons.prems have "version_id ver \<noteq> vid" "\<forall>v\<in>set pre. version_id v \<noteq> vid" by simp_all
  then show ?case
    using Cons.IH[of "session_delete ver rows" "delete_blob ver fs"]
    by (simp only: append_Cons rollback_loop.simps b f if_False not_False_eq_True if_True fold_simps)
qed

lemma rollback_loop_older:
  assumes "\<forall>ver\<in>set post. version_id ver \<noteq> vid"
    and "distinct (map id_col post)"
    and "\<forall>ver\<in>set post. \<forall>r\<in>set rows. id_col r = id_col ver \<longrightarrow> r = ver"
  shows "rollback_loop vid post True rows fs =
     (True, map (\<lambda>r. if id_col r \<in> id_col ` set post then r\<lparr>is_latest := False\<rparr> else r) rows, fs)"
  using assms
proof (induction post arbitrary: rows)
  case Nil
  then show ?case by simp
next
  case (Cons ver post)
  let ?g = "\<lambda>r. if id_col r = id_col ver then r\<lparr>is_latest := False\<rparr> else r"
  have same: "r = ver" if "r \<in> set rows" "id_col r = id_col ver" for r
    using Cons.prems(3) that by simp
  have upd: "session_update (ver\<lparr>is_latest := False\<rparr>) rows = map ?g rows"
    unfolding session_update_def by (rule map_cong) (auto dest: same)
  have noupd: "rows = map ?g rows" if "\<not> is_latest ver"
  proof -
    have "?g r = r" if "r \<in> set rows" for r
      using same[OF that] \<open>\<not> is_latest ver\<close> by auto
    then show ?thesis by (simp add: map_idI)
  qed
  have step: "rollback_loop vid (ver # post) True rows fs = rollback_loop vid post True (map ?g rows) fs"
  proof (cases "is_latest ver")
    case True
    with Cons.prems(1) show ?thesis by (simp add: upd)
  next
    case False
    with Cons.prems(1) noupd show ?thesis by simp
  qed
  have pre3: "\<forall>v\<in>set post. \<forall>r\<in>set (map ?g rows). id_col r = id_col v \<longrightarrow> r = v"
  proof (intro ballI impI)
    fix v r assume v: "v \<in> set post" and r: "r \<in> set (map ?g rows)" and e: "id_col r = id_col v"
    from r obtain r0 where r0: "r0 \<in> set rows" "r = ?g r0" by auto
    from Cons.prems(2) have "id_col ver \<notin> id_col ` set post" by simp
    with v have ne: "id_col v \<noteq> id_col ver" by (metis imageI)
    from r0 e have "id_col r0 = id_col v" by (auto split: if_splits)
    with ne r0 have "r = r0" by simp
    moreover from Cons.prems(3) v r0(1) \<open>id_col r0 = id_col v\<close> have "r0 = v" by simp
    ultimately show "r = v" by simp
  qed
  have "rollback_loop vid post True (map ?g rows) fs =
     (True, map (\<lambda>r. if id_col r \<in> id_col ` set post then r\<lparr>is_latest := False\<rparr> else r)
        (map ?g rows), fs)"
    using Cons.prems by (intro Cons.IH pre3) simp_all
  also have "map (\<lambda>r. if id_col r \<in> id_col ` set post then r\<lparr>is_latest := False\<rparr> else r)
        (map ?g rows) =
      map (\<lambda>r. if id_col r \<in> id_col ` set (ver # post) then r\<lparr>is_latest := False\<rparr> else r) rows"
    by (auto simp: comp_def)
  finally show ?case using step by simp
qed

lemma set_order_by [simp]: "set (order_by_last_modified_desc xs) = set xs"
  by (simp add: order_by_last_modified_desc_def)

lemma distinct_order_by [simp]: "distinct (order_by_last_modified_desc xs) = distinct xs"
  by (simp add: order_by_last_modified_desc_def)

lemma set_chain: "set (chain s b k) = {r \<in> set (objects s). bucket_name r = b \<and> key r = k}"
  by (auto simp: chain_def)

lemma pk_inj:
  "primary_key s \<Longrightarrow> r \<in> set (objects s) \<Longrightarrow> v \<in> set (objects s) \<Longrightarrow>
     id_col r = id_col v \<Longrightarrow> r = v"
  by (auto simp: primary_key_def distinct_map inj_on_def)

lemma pk_distinct: "primary_key s \<Longrightarrow> distinct (objects s)"
  by (auto simp: primary_key_def distinct_map)

lemma ui_rollback_not_found:
  assumes "\<forall>r\<in>set (chain s b k). version_id r \<noteq> vid"
  shows "ui_rollback s b k vid =
     (Inl (HTTPException 404 ''Target version not found in history''),
      s\<lparr>files := fold delete_blob (order_by_last_modified_desc (chain s b k)) (files s)\<rparr>)"
proof -
  let ?L = "order_by_last_modified_desc (chain s b k)"
  from assms have "\<forall>ver\<in>set ?L. version_id ver \<noteq> vid" by simp
  from rollback_loop_newer[OF this, of "[]" "objects s" "files s"]
  show ?thesis by (simp add: ui_rollback_def Let_def)
qed

lemma scan_split:
  assumes "t \<in> set (chain s b k)" and "version_id t = vid"
    and "distinct (map version_id (objects s))"
  shows "order_by_last_modified_desc (chain s b k) =
      newer_rows s b k vid @ t # older_rows s b k vid"
    and "\<forall>r\<in>set (newer_rows s b k vid). version_id r \<noteq> vid"
    and "\<forall>r\<in>set (older_rows s b k vid). version_id r \<noteq> vid"
proof -
  let ?L = "order_by_last_modified_desc (chain s b k)"
  let ?p = "\<lambda>r. version_id r \<noteq> vid"
  have dv: "distinct (map version_id ?L)"
  proof -
    have "distinct (map version_id (chain s b k))"
      unfolding chain_def using assms(3) by (rule distinct_map_filter)
    then show ?thesis
      by (simp add: distinct_map order_by_last_modified_desc_def)
  qed
  have "t \<in> set ?L" using assms(1) by simp
  with assms(2) have "\<exists>r\<in>set ?L. \<not> ?p r" by auto
  then have ne: "dropWhile ?p ?L \<noteq> []" by (simp add: dropWhile_eq_Nil_conv)
  then obtain u rest where d: "dropWhile ?p ?L = u # rest" by (cases "dropWhile ?p ?L") auto
  have u: "version_id u = vid" using hd_dropWhile[OF ne] d by simp
  have L: "?L = takeWhile ?p ?L @ u # rest" using d by (metis takeWhile_dropWhile_id)
  then have "u \<in> set ?L" by (metis in_set_conv_decomp)
  with dv \<open>t \<in> set ?L\<close> u assms(2) have "u = t"
    by (auto simp: distinct_map inj_on_def)
  with L d show "?L = newer_rows s b k vid @ t # older_rows s b k vid"
    by (simp add: newer_rows_def older_rows_def)
  show "\<forall>r\<in>set (newer_rows s b k vid). version_id r \<noteq> vid"
    by (auto simp: newer_rows_def dest: set_takeWhileD)
  have "distinct (map version_id (takeWhile ?p ?L @ u # rest))" using dv L by simp
  then have "version_id u \<notin> version_id ` set rest" by simp
  then have "\<forall>r\<in>set rest. version_id r \<noteq> version_id u" by (metis imageI)
  moreover have "older_rows s b k vid = rest" using d by (simp add: older_rows_def)
  ultimately show "\<forall>r\<in>set (older_rows s b k vid). version_id r \<noteq> vid"
    using u by simp
qed

lemma ui_rollback_found:
  assumes pk: "primary_key s" and dv: "distinct (map version_id (objects s))"
    and t: "t \<in> set (chain s b k)" "version_id t = vid"
  shows "ui_rollback s b k vid =
     (Inr [(''status'', ''success''),
           (''message'', ''Rolled back to '' @ vid @ '', newer versions deleted.'')],
      s\<lparr>objects :=
           map (\<lambda>r. if bucket_name r = b \<and> key r = k
                     then r\<lparr>is_latest := (version_id r = vid)\<rparr> else r)
             (filter (\<lambda>r. r \<notin> set (newer_rows s b k vid)) (objects s)),
        files := fold delete_blob (newer_rows s b k vid) (files s)\<rparr>)"
proof -
  let ?L = "order_by_last_modified_desc (chain s b k)"
  let ?pre = "newer_rows s b k vid" and ?post = "older_rows s b k vid"
  let ?t' = "t\<lparr>is_latest := True\<rparr>"
  note sp = scan_split[OF t dv]
  have Lset: "set ?L = set (chain s b k)" by simp
  have sub: "set ?pre \<subseteq> set (objects s)" "set ?post \<subseteq> set (objects s)" "t \<in> set (objects s)"
    using sp(1) Lset t(1) by (auto simp: set_chain)
  have dL: "distinct ?L" using pk_distinct[OF pk] by (simp add: chain_def)
  then have dis: "t \<notin> set ?pre" "t \<notin> set ?post" "set ?pre \<inter> set ?post = {}" "distinct ?post"
    unfolding sp(1) by auto
  have inL: "r \<in> set ?pre \<or> r = t \<or> r \<in> set ?post"
    if "r \<in> set (objects s)" "bucket_name r = b" "key r = k" for r
  proof -
    from that have "r \<in> set ?L" by (simp add: set_chain)
    then show ?thesis unfolding sp(1) by auto
  qed
  have inP: "bucket_name r = b \<and> key r = k" if "r \<in> set ?pre \<or> r = t \<or> r \<in> set ?post" for r
  proof -
    from that have "r \<in> set (?pre @ t # ?post)" by auto
    moreover have "set (?pre @ t # ?post) = set (chain s b k)" by (metis Lset sp(1))
    ultimately have "r \<in> set (chain s b k)" by blast
    then show ?thesis by (simp add: set_chain)
  qed
  let ?rows1 = "filter (\<lambda>r. id_col r \<notin> id_col ` set ?pre) (objects s)"
  let ?rows2 = "session_update ?t' ?rows1"
  have rows1: "?rows1 = filter (\<lambda>r. r \<notin> set ?pre) (objects s)"
  proof (rule filter_cong[OF refl])
    fix r assume r: "r \<in> set (objects s)"
    show "(id_col r \<notin> id_col ` set ?pre) = (r \<notin> set ?pre)"
      using pk_inj[OF pk r] sub(1) by auto
  qed
  have l1: "rollback_loop vid ?L False (objects s) (files s) =
      rollback_loop vid (t # ?post) False ?rows1 (fold delete_blob ?pre (files s))"
    unfolding sp(1) by (rule rollback_loop_newer[OF sp(2)])
  have l2: "rollback_loop vid (t # ?post) False ?rows1 (fold delete_blob ?pre (files s)) =
      rollback_loop vid ?post True ?rows2 (fold delete_blob ?pre (files s))"
    using t(2) by simp
  have dpost: "distinct (map id_col ?post)"
  proof -
    have "inj_on id_col (set ?post)"
      using pk_inj[OF pk] sub(2) by (auto simp: inj_on_def)
    with dis(4) show ?thesis by (simp add: distinct_map)
  qed
  have c3: "\<forall>ver\<in>set ?post. \<forall>r\<in>set ?rows2. id_col r = id_col ver \<longrightarrow> r = ver"
  proof (intro ballI impI)
    fix ver r assume v: "ver \<in> set ?post" and r: "r \<in> set ?rows2" and e: "id_col r = id_col ver"
    have vo: "ver \<in> set (objects s)" using v sub(2) by auto
    have "id_col ver \<noteq> id_col t" using pk_inj[OF pk vo sub(3)] v dis(2) by auto
    with r e have "r \<in> set ?rows1" by (auto simp: session_update_def split: if_splits)
    then have "r \<in> set (objects s)" by simp
    from pk_inj[OF pk this vo e] show "r = ver" .
  qed
  have l3: "rollback_loop vid ?post True ?rows2 (fold delete_blob ?pre (files s)) =
      (True, map (\<lambda>r. if id_col r \<in> id_col ` set ?post then r\<lparr>is_latest := False\<rparr> else r) ?rows2,
       fold delete_blob ?pre (files s))"
    by (rule rollback_loop_older[OF sp(3) dpost c3])
  have fin: "map (\<lambda>r. if id_col r \<in> id_col ` set ?post then r\<lparr>is_latest := False\<rparr> else r) ?rows2 =
      map (\<lambda>r. if bucket_name r = b \<and> key r = k
                     then r\<lparr>is_latest := (version_id r = vid)\<rparr> else r)
             (filter (\<lambda>r. r \<notin> set ?pre) (objects s))"
    unfolding rows1 session_update_def map_map
  proof (rule map_cong[OF refl])
    fix r assume "r \<in> set (filter (\<lambda>r. r \<notin> set ?pre) (objects s))"
    then have r: "r \<in> set (objects s)" "r \<notin> set ?pre" by simp_all
    show "((\<lambda>r. if id_col r \<in> id_col ` set ?post then r\<lparr>is_latest := False\<rparr> else r) \<circ>
          (\<lambda>r. if id_col r = id_col ?t' then ?t' else r)) r =
        (if bucket_name r = b \<and> key r = k then r\<lparr>is_latest := (version_id r = vid)\<rparr> else r)"
    proof (cases "r = t")
      case True
      have "id_col t \<notin> id_col ` set ?post"
      proof
        assume "id_col t \<in> id_col ` set ?post"
        then obtain v where v: "v \<in> set ?post" "id_col t = id_col v" by auto
        with pk_inj[OF pk sub(3), of v] sub(2) have "t = v" by auto
        with v dis(2) show False by simp
      qed
      with True t(2) inP[of t] show ?thesis by simp
    next
      case False
      then have ne: "id_col r \<noteq> id_col t" using pk_inj[OF pk r(1) sub(3)] by auto
      show ?thesis
      proof (cases "r \<in> set ?post")
        case True
        with sp(3) inP[of r] ne show ?thesis by auto
      next
        case np: False
        have "id_col r \<notin> id_col ` set ?post"
        proof
          assume "id_col r \<in> id_col ` set ?post"
          then obtain v where v: "v \<in> set ?post" "id_col r = id_col v" by auto
          with pk_inj[OF pk r(1), of v] sub(2) have "r = v" by auto
          with v np show False by simp
        qed
        moreover have "\<not> (bucket_name r = b \<and> key r = k)"
          using inL[OF r(1)] r(2) False np by auto
        ultimately show ?thesis using ne by auto
      qed
    qed
  qed
  show ?thesis
    by (simp add: ui_rollback_def Let_def l1 l2 l3 fin del: rollback_loop.simps)
qed


section \<open>Rollback to a version that is not in the chain\<close>

text \<open>
  Claim C1 asks that a rollback to a version id that the chain does not have fails and
  changes nothing, neither a row nor a file. The handler finds out that the target is
  missing only after its scan has deleted the file of every row it met
  (\<open>ui_rollback_not_found\<close>): the rows stay, since nothing is committed, the files do
  not. On \<open>store_one\<close> the rollback to the unknown \<open>uuid4'\<close> answers 404 and leaves
  the row of the only version in place, but the file of that row, which held the byte
  \<open>A\<close>, is gone, and a get of the key, which answered 200 before, now answers 500.
\<close>

theorem rollback_unknown_version_deletes_files:
  "fst (ui_rollback store_one ''b'' ''k'' uuid4') =
     Inl (HTTPException 404 ''Target version not found in history'') \<and>
   objects (snd (ui_rollback store_one ''b'' ''k'' uuid4')) = objects store_one \<and>
   storage_path (row_of 1 uuid1 True 0x41 1) = Some (''b/6b/'' @ uuid1) \<and>
   get_file_content (''b/6b/'' @ uuid1) (files store_one) = Some [0x41] \<and>
   get_file_content (''b/6b/'' @ uuid1) (files (snd (ui_rollback store_one ''b'' ''k'' uuid4')))
     = None \<and>
   get_object store_one ''b'' ''k'' None =
     Inr \<lparr>status_code = 200,
          headers = [(''x-amz-version-id'', uuid1),
                     (''ETag'', [CHR 0x22, CHR ''4'', CHR ''1'', CHR 0x22]),
                     (''Content-Type'', ''application/octet-stream''),
                     (''Content-Length'', ''1'')],
          content = [0x41]\<rparr> \<and>
   get_object (snd (ui_rollback store_one ''b'' ''k'' uuid4')) ''b'' ''k'' None =
     Inl (HTTPException 500 ''InternalError: File missing on disk'')"
proof -
  have nf: "\<forall>r\<in>set (chain store_one ''b'' ''k''). version_id r \<noteq> uuid4'"
    by (simp add: chain_def example_defs)
  have ch: "order_by_last_modified_desc (chain store_one ''b'' ''k'') = [row_of 1 uuid1 True 0x41 1]"
    by (simp add: chain_def order_by_last_modified_desc_def store_one_def row_of_def bucket_b_def)
  have r: "ui_rollback store_one ''b'' ''k'' uuid4' =
     (Inl (HTTPException 404 ''Target version not found in history''),
      store_one\<lparr>files := delete_blob (row_of 1 uuid1 True 0x41 1) (files store_one)\<rparr>)"
    by (simp add: ui_rollback_not_found[OF nf] ch)
  show ?thesis
    unfolding r
    by (simp add: chain_def get_object_def select_object_def truthy_def get_file_content_def
      delete_blob_def delete_physical_file_def
      path_defs hex_defs example_defs str_int_def str_nat.simps)
qed


section \<open>Preservation of the invariants\<close>

lemma set_map_relabelD:
  assumes "r \<in> set (map (\<lambda>x. if c x then x\<lparr>is_latest := l x\<rparr> else x) xs)"
  shows "\<exists>r0\<in>set xs. bucket_name r0 = bucket_name r \<and> key r0 = key r \<and>
     version_id r0 = version_id r \<and> id_col r0 = id_col r \<and>
     storage_path r0 = storage_path r \<and> is_delete_marker r0 = is_delete_marker r"
proof -
  from assms[unfolded set_map] obtain r0
    where e: "r = (if c r0 then r0\<lparr>is_latest := l r0\<rparr> else r0)" and r0: "r0 \<in> set xs"
    by (rule imageE)
  show ?thesis
  proof (cases "c r0")
    case True
    with e have "r = r0\<lparr>is_latest := l r0\<rparr>" by (simp only: if_True)
    then have "bucket_name r0 = bucket_name r \<and> key r0 = key r \<and>
     version_id r0 = version_id r \<and> id_col r0 = id_col r \<and>
     storage_path r0 = storage_path r \<and> is_delete_marker r0 = is_delete_marker r" by simp
    with r0 show ?thesis by (rule bexI[rotated])
  next
    case False
    with e have "r = r0" by (simp only: if_False)
    with r0 show ?thesis by blast
  qed
qed

lemma filter_relabel_other:
  assumes "\<And>x. c x \<Longrightarrow> \<not> p x" and "\<And>x. p (x\<lparr>is_latest := l x\<rparr>) = p x"
  shows "filter p (map (\<lambda>x. if c x then x\<lparr>is_latest := l x\<rparr> else x) xs) = filter p xs"
proof (induction xs)
  case Nil
  show ?case by simp
next
  case (Cons x xs)
  show ?case
  proof (cases "c x")
    case True
    then have "\<not> p x" "\<not> p (x\<lparr>is_latest := l x\<rparr>)" using assms by simp_all
    with True Cons show ?thesis by simp
  next
    case False
    with Cons show ?thesis by simp
  qed
qed

lemma map_relabel_fields:
  "map id_col (map (\<lambda>x. if c x then x\<lparr>is_latest := l x\<rparr> else x) xs) = map id_col xs"
  "map version_id (map (\<lambda>x. if c x then x\<lparr>is_latest := l x\<rparr> else x) xs) = map version_id xs"
  by (induction xs) simp_all

lemma filter_latest_relabel:
  "filter (\<lambda>x. c x \<and> is_latest x) (map (\<lambda>x. if c x then x\<lparr>is_latest := l x\<rparr> else x) xs) =
     map (\<lambda>x. x\<lparr>is_latest := True\<rparr>) (filter (\<lambda>x. c x \<and> l x) xs)"
  if "\<And>x v. c (x\<lparr>is_latest := v\<rparr>) = c x"
  using that by (induction xs) simp_all

lemma next_id_fresh: "next_id rows \<notin> id_col ` set rows"
proof
  assume "next_id rows \<in> id_col ` set rows"
  then have "next_id rows \<in> set (0 # map id_col rows)" by simp
  then have "next_id rows \<le> Max (set (0 # map id_col rows))" by (intro Max_ge) simp_all
  also have "\<dots> = fold max (map id_col rows) 0" by (rule Max.set_eq_fold)
  finally show False by (simp add: next_id_def)
qed

lemma wf_objects_cong: "objects s' = objects s \<Longrightarrow> wf md5 s' = wf md5 s"
  by (simp add: wf_def primary_key_def I1_def I2_def I3_def chain_def)

lemma wf_insert:
  assumes wf: "wf md5 s"
    and new: "bucket_name new = b" "key new = k" "is_latest new" "id_col new = next_id (objects s)"
      "version_id new \<notin> set (map version_id (objects s))" "is_uuid_str (version_id new)"
      "storage_path new = (if is_delete_marker new then None
         else Some (locator md5 b k (version_id new)))"
    and objs: "objects s' = map (\<lambda>r. if bucket_name r = b \<and> key r = k \<and> is_latest r
               then r\<lparr>is_latest := False\<rparr> else r) (objects s) @ [new]"
  shows "wf md5 s'"
proof -
  define c where "c = (\<lambda>r::object_version. bucket_name r = b \<and> key r = k \<and> is_latest r)"
  define f where "f = (\<lambda>r::object_version. if c r then r\<lparr>is_latest := False\<rparr> else r)"
  have objs': "objects s' = map f (objects s) @ [new]"
    unfolding objs f_def c_def ..
  from wf have pk: "primary_key s" and i1: "I1 s" and i2: "I2 md5 s" and i3: "I3 s"
    by (simp_all add: wf_def)
  have ids: "map id_col (map f (objects s)) = map id_col (objects s)"
    unfolding f_def by (rule map_relabel_fields)
  have vids: "map version_id (map f (objects s)) = map version_id (objects s)"
    unfolding f_def by (rule map_relabel_fields)
  have orig: "\<exists>r0\<in>set (objects s). bucket_name r0 = bucket_name r \<and> key r0 = key r \<and>
     version_id r0 = version_id r \<and> id_col r0 = id_col r \<and>
     storage_path r0 = storage_path r \<and> is_delete_marker r0 = is_delete_marker r"
    if "r \<in> set (map f (objects s))" for r
    using that unfolding f_def by (rule set_map_relabelD)
  have mem: "r = new \<or> r \<in> set (map f (objects s))" if "r \<in> set (objects s')" for r
    using that unfolding objs' by simp
  have "distinct (map id_col (objects s) @ [next_id (objects s)])"
    using pk next_id_fresh[of "objects s"] by (simp add: primary_key_def)
  then have "primary_key s'"
    unfolding primary_key_def objs' map_append ids by (simp add: new(4))
  moreover have "I3 s'"
    unfolding I3_def
  proof
    have "distinct (map version_id (objects s) @ [version_id new])"
      using i3 new(5) by (simp add: I3_def)
    then show "distinct (map version_id (objects s'))"
      unfolding objs' map_append vids by simp
    show "\<forall>r\<in>set (objects s'). is_uuid_str (version_id r)"
    proof
      fix r assume "r \<in> set (objects s')"
      from mem[OF this] show "is_uuid_str (version_id r)"
      proof
        assume "r = new" with new(6) show ?thesis by simp
      next
        assume "r \<in> set (map f (objects s))"
        from orig[OF this] obtain r0 where "r0 \<in> set (objects s)" "version_id r0 = version_id r"
          by blast
        with i3 show ?thesis by (metis I3_def)
      qed
    qed
  qed
  moreover have "I2 md5 s'"
    unfolding I2_def
  proof
    fix r assume "r \<in> set (objects s')"
    from mem[OF this] show "storage_path r = (if is_delete_marker r then None
        else Some (locator md5 (bucket_name r) (key r) (version_id r)))"
    proof
      assume "r = new" with new(1,2,7) show ?thesis by simp
    next
      assume "r \<in> set (map f (objects s))"
      from orig[OF this] obtain r0 where r0: "r0 \<in> set (objects s)"
        "bucket_name r0 = bucket_name r" "key r0 = key r" "version_id r0 = version_id r"
        "storage_path r0 = storage_path r" "is_delete_marker r0 = is_delete_marker r"
        by blast
      from i2 r0(1) have "storage_path r0 = (if is_delete_marker r0 then None
        else Some (locator md5 (bucket_name r0) (key r0) (version_id r0)))"
        by (simp add: I2_def)
      then show ?thesis unfolding r0(2-6) .
    qed
  qed
  moreover have "I1 s'"
    unfolding I1_def
  proof
    fix r assume r: "r \<in> set (objects s')"
    let ?p = "\<lambda>x::object_version. bucket_name x = bucket_name r \<and> key x = key r"
    have ch: "chain s' (bucket_name r) (key r) = filter ?p (map f (objects s)) @ filter ?p [new]"
      unfolding chain_def objs' by simp
    show "length (filter is_latest (chain s' (bucket_name r) (key r))) = 1"
    proof (cases "bucket_name r = b \<and> key r = k")
      case True
      have "filter is_latest (filter (\<lambda>x. bucket_name x = b \<and> key x = k) (map f xs)) = []" for xs
        unfolding f_def c_def by (induction xs) (simp_all, blast)
      then show ?thesis unfolding ch using True new(1,2,3) by simp
    next
      case False
      have nn: "\<not> ?p new" using False new(1,2) by metis
      with r mem have "r \<in> set (map f (objects s))" by blast
      from orig[OF this] obtain r0 where r0: "r0 \<in> set (objects s)"
        "bucket_name r0 = bucket_name r" "key r0 = key r" by blast
      have "filter ?p (map f (objects s)) = filter ?p (objects s)"
        unfolding f_def
      proof (rule filter_relabel_other)
        fix x assume "c x" with False show "\<not> ?p x" by (auto simp: c_def)
      next
        fix x :: object_version
        show "?p (x\<lparr>is_latest := False\<rparr>) = ?p x" by simp
      qed
      with nn have "chain s' (bucket_name r) (key r) = chain s (bucket_name r) (key r)"
        unfolding ch by (simp add: chain_def)
      moreover from i1 r0(1) have "length (filter is_latest (chain s (bucket_name r0) (key r0))) = 1"
        by (simp add: I1_def)
      ultimately show ?thesis unfolding r0(2,3) by simp
    qed
  qed
  ultimately show ?thesis by (simp add: wf_def)
qed

lemma wf_prune:
  assumes wf: "wf md5 s"
    and keep: "\<And>r. r \<in> set (objects s) \<Longrightarrow> \<not> (bucket_name r = b \<and> key r = k) \<Longrightarrow> keep r"
    and one: "filter (\<lambda>r. keep r \<and> bucket_name r = b \<and> key r = k) (objects s) = [] \<or>
       length (filter (\<lambda>r. keep r \<and> bucket_name r = b \<and> key r = k \<and> lat r) (objects s)) = 1"
    and objs: "objects s' = map (\<lambda>r. if bucket_name r = b \<and> key r = k
               then r\<lparr>is_latest := lat r\<rparr> else r) (filter keep (objects s))"
  shows "wf md5 s'"
proof -
  define c where "c = (\<lambda>r::object_version. bucket_name r = b \<and> key r = k)"
  define f where "f = (\<lambda>r::object_version. if c r then r\<lparr>is_latest := lat r\<rparr> else r)"
  have objs': "objects s' = map f (filter keep (objects s))"
    unfolding objs f_def c_def ..
  from wf have pk: "primary_key s" and i1: "I1 s" and i2: "I2 md5 s" and i3: "I3 s"
    by (simp_all add: wf_def)
  have ids: "map id_col (map f xs) = map id_col xs" for xs
    unfolding f_def by (rule map_relabel_fields)
  have vids: "map version_id (map f xs) = map version_id xs" for xs
    unfolding f_def by (rule map_relabel_fields)
  have orig: "\<exists>r0\<in>set (objects s). keep r0 \<and> bucket_name r0 = bucket_name r \<and> key r0 = key r \<and>
     version_id r0 = version_id r \<and> id_col r0 = id_col r \<and>
     storage_path r0 = storage_path r \<and> is_delete_marker r0 = is_delete_marker r"
    if "r \<in> set (objects s')" for r
  proof -
    from that have "r \<in> set (map (\<lambda>x. if c x then x\<lparr>is_latest := lat x\<rparr> else x)
        (filter keep (objects s)))" unfolding objs' f_def .
    from set_map_relabelD[OF this] show ?thesis by auto
  qed
  have "distinct (map id_col (filter keep (objects s)))"
    using pk unfolding primary_key_def by (rule distinct_map_filter)
  then have "primary_key s'"
    unfolding primary_key_def objs' ids .
  moreover have "I3 s'"
    unfolding I3_def
  proof
    have "distinct (map version_id (filter keep (objects s)))"
      using i3 unfolding I3_def by (intro distinct_map_filter) simp
    then show "distinct (map version_id (objects s'))"
      unfolding objs' vids .
    show "\<forall>r\<in>set (objects s'). is_uuid_str (version_id r)"
    proof
      fix r assume "r \<in> set (objects s')"
      from orig[OF this] obtain r0 where "r0 \<in> set (objects s)" "version_id r0 = version_id r"
        by blast
      with i3 show "is_uuid_str (version_id r)" by (metis I3_def)
    qed
  qed
  moreover have "I2 md5 s'"
    unfolding I2_def
  proof
    fix r assume "r \<in> set (objects s')"
    from orig[OF this] obtain r0 where r0: "r0 \<in> set (objects s)"
      "bucket_name r0 = bucket_name r" "key r0 = key r" "version_id r0 = version_id r"
      "storage_path r0 = storage_path r" "is_delete_marker r0 = is_delete_marker r"
      by blast
    from i2 r0(1) have "storage_path r0 = (if is_delete_marker r0 then None
      else Some (locator md5 (bucket_name r0) (key r0) (version_id r0)))"
      by (simp add: I2_def)
    then show "storage_path r = (if is_delete_marker r then None
        else Some (locator md5 (bucket_name r) (key r) (version_id r)))"
      unfolding r0(2-6) .
  qed
  moreover have "I1 s'"
    unfolding I1_def
  proof
    fix r assume r: "r \<in> set (objects s')"
    let ?p = "\<lambda>x::object_version. bucket_name x = bucket_name r \<and> key x = key r"
    have ch: "chain s' (bucket_name r) (key r) = filter ?p (map f (filter keep (objects s)))"
      unfolding chain_def objs' by simp
    from orig[OF r] obtain r0 where r0: "r0 \<in> set (objects s)" "keep r0"
      "bucket_name r0 = bucket_name r" "key r0 = key r" by blast
    show "length (filter is_latest (chain s' (bucket_name r) (key r))) = 1"
    proof (cases "bucket_name r = b \<and> key r = k")
      case True
      have "length (filter is_latest (filter c (map f (filter keep xs)))) =
          length (filter (\<lambda>r. keep r \<and> c r \<and> lat r) xs)" for xs
      proof (induction xs)
        case Nil
        show ?case by simp
      next
        case (Cons x xs)
        show ?case
        proof (cases "keep x \<and> c x")
          case True
          then have "c (f x)" "is_latest (f x) = lat x" by (simp_all add: f_def c_def)
          with True Cons show ?thesis by simp
        next
          case False
          then have "\<not> keep x \<or> (keep x \<and> \<not> c (f x))" by (auto simp: f_def)
          with False Cons show ?thesis by auto
        qed
      qed
      then have "length (filter is_latest (filter c (map f (filter keep (objects s))))) =
          length (filter (\<lambda>r. keep r \<and> bucket_name r = b \<and> key r = k \<and> lat r) (objects s))"
        unfolding c_def conj_assoc .
      moreover have "r0 \<in> set (filter (\<lambda>r. keep r \<and> bucket_name r = b \<and> key r = k) (objects s))"
        using r0 True by simp
      then have "filter (\<lambda>r. keep r \<and> bucket_name r = b \<and> key r = k) (objects s) \<noteq> []"
        by (metis empty_iff list.set(1))
      ultimately have "length (filter is_latest (filter c (map f (filter keep (objects s))))) = 1"
        using one by simp
      with True show ?thesis unfolding ch c_def by simp
    next
      case False
      have "filter ?p (map f xs) = filter ?p xs" for xs
        unfolding f_def
      proof (rule filter_relabel_other)
        fix x assume "c x" with False show "\<not> ?p x" by (auto simp: c_def)
      next
        fix x :: object_version
        show "?p (x\<lparr>is_latest := lat x\<rparr>) = ?p x" by simp
      qed
      moreover have "filter ?p (filter keep (objects s)) = filter ?p (objects s)"
        unfolding filter_filter
      proof (rule filter_cong[OF refl])
        fix x assume "x \<in> set (objects s)"
        from keep[OF this] False show "(keep x \<and> ?p x) = ?p x" by metis
      qed
      ultimately have "chain s' (bucket_name r) (key r) = chain s (bucket_name r) (key r)"
        unfolding ch by (simp add: chain_def)
      moreover from i1 r0(1) have "length (filter is_latest (chain s (bucket_name r0) (key r0))) = 1"
        by (simp add: I1_def)
      ultimately show ?thesis unfolding r0(3,4) by simp
    qed
  qed
  ultimately show ?thesis by (simp add: wf_def)
qed


lemma wf_put_object:
  assumes "wf md5 s" and "is_uuid_str uuid4" and "uuid4 \<notin> set (map version_id (objects s))"
  shows "wf md5 (snd (put_object md5 s b k body ctype uuid4 utcnow))"
proof (cases "select_bucket s b")
  case None
  with assms(1) show ?thesis by (simp add: put_object_def)
next
  case (Some bk)
  then have ex: "select_bucket s b \<noteq> None" by simp
  from assms(1) have pk: "primary_key s" and i1: "I1 s" by (simp_all add: wf_def)
  show ?thesis
    unfolding put_object_eq[OF ex] snd_conv
    by (rule wf_insert[OF assms(1), where b = b and k = k])
      (use assms(2,3) in \<open>simp_all add: demote_old_latest_eq[OF pk i1]\<close>)
qed

lemma delete_marker_eq:
  assumes "\<not> truthy versionId" and "select_bucket s b \<noteq> None"
  shows "delete_object s b k versionId uuid4 utcnow =
      (Inr \<lparr>status_code = 204,
            headers = [(''x-amz-version-id'', uuid4), (''x-amz-delete-marker'', ''true'')],
            content = []\<rparr>,
       s\<lparr>objects := demote_old_latest s b k @
          [\<lparr>id_col = next_id (objects s), bucket_name = b, key = k,
            version_id = uuid4, is_latest = True, is_delete_marker = True, size_col = 0,
            etag = [], last_modified = utcnow, content_type = ''application/octet-stream'',
            storage_path = None\<rparr>]\<rparr>)"
proof -
  obtain bk where bk: "select_bucket s b = Some bk" using assms(2) by auto
  have n: "next_id (demote_old_latest s b k) = next_id (objects s)"
    by (rule next_id_cong) simp
  show ?thesis
    using assms(1) by (simp add: delete_object_def bk Let_def session_insert_def n)
qed

lemma wf_delete_marker:
  assumes "wf md5 s" and "\<not> truthy versionId"
    and "is_uuid_str uuid4" and "uuid4 \<notin> set (map version_id (objects s))"
  shows "wf md5 (snd (delete_object s b k versionId uuid4 utcnow))"
proof (cases "select_bucket s b")
  case None
  with assms(1,2) show ?thesis by (simp add: delete_object_def)
next
  case (Some bk)
  then have ex: "select_bucket s b \<noteq> None" by simp
  from assms(1) have pk: "primary_key s" and i1: "I1 s" by (simp_all add: wf_def)
  show ?thesis
    unfolding delete_marker_eq[OF assms(2) ex] snd_conv
    by (rule wf_insert[OF assms(1), where b = b and k = k])
      (use assms(3,4) in \<open>simp_all add: demote_old_latest_eq[OF pk i1]\<close>)
qed

lemma filter_conj_nest: "filter (\<lambda>r. A r \<and> B r) xs = filter A (filter B xs)"
  by (induction xs) auto

lemma filter_eq_key:
  assumes "distinct (map g xs)" and "t \<in> set xs"
  shows "filter (\<lambda>r. g r = g t) xs = [t]"
  using assms
proof (induction xs)
  case Nil
  then show ?case by simp
next
  case (Cons x xs)
  show ?case
  proof (cases "x = t")
    case True
    with Cons.prems(1) have "\<forall>r\<in>set xs. g r \<noteq> g t" by (metis distinct.simps(2) image_eqI list.simps(9) list.set_map)
    then have "filter (\<lambda>r. g r = g t) xs = []" by (simp add: filter_empty_conv)
    with True show ?thesis by simp
  next
    case False
    with Cons.prems have t: "t \<in> set xs" and d: "distinct (map g xs)" by simp_all
    from Cons.prems(1) t have "g x \<noteq> g t" by (metis distinct.simps(2) image_eqI list.simps(9) list.set_map)
    with Cons.IH[OF d t] show ?thesis by simp
  qed
qed

lemma wf_ui_rollback:
  assumes "wf md5 s"
  shows "wf md5 (snd (ui_rollback s b k vid))"
proof (cases "\<exists>t\<in>set (chain s b k). version_id t = vid")
  case False
  then have "\<forall>r\<in>set (chain s b k). version_id r \<noteq> vid" by blast
  then have "objects (snd (ui_rollback s b k vid)) = objects s"
    by (simp add: ui_rollback_not_found)
  from wf_objects_cong[OF this] assms show ?thesis by simp
next
  case True
  then obtain t where t: "t \<in> set (chain s b k)" "version_id t = vid" by blast
  from assms have pk: "primary_key s" and i3: "I3 s" by (simp_all add: wf_def)
  from i3 have dv: "distinct (map version_id (objects s))" by (simp add: I3_def)
  note sp = scan_split[OF t dv]
  have tin: "t \<in> set (objects s)" "bucket_name t = b" "key t = k"
    using t(1) by (simp_all add: set_chain)
  have dL: "distinct (newer_rows s b k vid @ t # older_rows s b k vid)"
    using pk_distinct[OF pk] unfolding sp(1)[symmetric] by (simp add: chain_def)
  then have tn: "t \<notin> set (newer_rows s b k vid)" by simp
  have sub: "set (newer_rows s b k vid) \<subseteq> set (chain s b k)"
    using set_order_by[of "chain s b k"] unfolding sp(1) by auto
  let ?keep = "\<lambda>r. r \<notin> set (newer_rows s b k vid)"
  have "filter (\<lambda>r. version_id r = version_id t) (objects s) = [t]"
    using dv tin(1) by (rule filter_eq_key)
  then have "filter (\<lambda>r. ?keep r \<and> bucket_name r = b \<and> key r = k)
       (filter (\<lambda>r. version_id r = vid) (objects s)) = [t]"
    unfolding t(2) using tn tin by simp
  then have "filter (\<lambda>r. (?keep r \<and> bucket_name r = b \<and> key r = k) \<and> version_id r = vid)
       (objects s) = [t]"
    by (simp only: filter_conj_nest[of "\<lambda>r. ?keep r \<and> bucket_name r = b \<and> key r = k"])
  then have one: "length (filter (\<lambda>r. ?keep r \<and> bucket_name r = b \<and> key r = k \<and>
       version_id r = vid) (objects s)) = 1"
    unfolding conj_assoc by simp
  show ?thesis
    unfolding ui_rollback_found[OF pk dv t] snd_conv
  proof (rule wf_prune[OF assms, where keep = ?keep and b = b and k = k
        and lat = "\<lambda>r. version_id r = vid"])
    fix r :: object_version assume "r \<in> set (objects s)" "\<not> (bucket_name r = b \<and> key r = k)"
    then have "r \<notin> set (chain s b k)" by (simp add: set_chain)
    with sub show "r \<notin> set (newer_rows s b k vid)" by blast
  next
    from one show "filter (\<lambda>r. ?keep r \<and> bucket_name r = b \<and> key r = k) (objects s) = [] \<or>
      length (filter (\<lambda>r. ?keep r \<and> bucket_name r = b \<and> key r = k \<and> version_id r = vid)
        (objects s)) = 1" ..
  qed simp
qed


lemma vid_unique:
  assumes "distinct (map version_id (objects s))" and "obj \<in> set (objects s)"
    and "r \<in> set (objects s)"
  shows "version_id r = version_id obj \<longleftrightarrow> r = obj"
  using assms by (auto simp: distinct_map inj_on_def)

lemma delete_version_eq:
  assumes pk: "primary_key s" and dv: "distinct (map version_id (objects s))"
    and vid: "vid \<noteq> []" and obj: "obj \<in> set (chain s b k)" "version_id obj = vid"
  shows "delete_object s b k (Some vid) uuid4 utcnow =
     (Inr \<lparr>status_code = 204, headers = [], content = []\<rparr>,
      s\<lparr>objects :=
           map (\<lambda>r. if is_latest obj \<and> next_latest s b k vid = Some r
                     then r\<lparr>is_latest := True\<rparr> else r)
             (filter (\<lambda>r. version_id r \<noteq> vid) (objects s)),
        files := delete_blob obj (files s)\<rparr>)"
proof -
  have oin: "obj \<in> set (objects s)" "bucket_name obj = b" "key obj = k"
    using obj(1) by (simp_all add: set_chain)
  note vu = vid_unique[OF dv oin(1), unfolded obj(2)]
  have "filter (\<lambda>r. bucket_name r = b \<and> key r = k \<and> version_id r = vid) (objects s) =
      filter (\<lambda>r. version_id r = vid) (objects s)"
    by (rule filter_cong[OF refl]) (use vu oin in blast)
  also have "\<dots> = [obj]"
    using filter_eq_key[OF dv oin(1)] unfolding obj(2) .
  finally have sel: "first (filter (\<lambda>r. bucket_name r = b \<and> key r = k \<and> version_id r = vid)
      (objects s)) = Some obj" by simp
  have rem: "filter (\<lambda>r. bucket_name r = b \<and> key r = k \<and> version_id r \<noteq> vid) (objects s) =
      filter (\<lambda>r. version_id r \<noteq> vid) (chain s b k)"
    unfolding chain_def filter_filter by (rule filter_cong[OF refl]) blast
  have nl: "first (order_by_last_modified_desc
      (filter (\<lambda>r. bucket_name r = b \<and> key r = k \<and> version_id r \<noteq> vid) (objects s))) =
      next_latest s b k vid"
    unfolding rem next_latest_def ..
  have del: "filter (\<lambda>r. id_col r \<noteq> id_col obj) (objects s) =
      filter (\<lambda>r. version_id r \<noteq> vid) (objects s)"
  proof (rule filter_cong[OF refl])
    fix r assume r: "r \<in> set (objects s)"
    from pk_inj[OF pk r oin(1)] vu[OF r]
    show "(id_col r \<noteq> id_col obj) = (version_id r \<noteq> vid)" by blast
  qed
  have blob: "(case storage_path obj of None \<Rightarrow> files s
      | Some p \<Rightarrow> if p \<noteq> [] then delete_physical_file p (files s) else files s) =
      delete_blob obj (files s)"
    by (simp add: delete_blob_def)
  let ?rows = "if is_latest obj then
       (case next_latest s b k vid of None \<Rightarrow> objects s
        | Some n \<Rightarrow> session_update (n\<lparr>is_latest := True\<rparr>) (objects s))
     else objects s"
  have d: "delete_object s b k (Some vid) uuid4 utcnow =
     (Inr \<lparr>status_code = 204, headers = [], content = []\<rparr>,
      s\<lparr>objects := session_delete obj ?rows, files := delete_blob obj (files s)\<rparr>)"
    unfolding delete_object_def using vid
    by (simp only: truthy_def option.case option.sel sel nl blob Let_def if_True
        not_False_eq_True simp_thms)
  have "session_delete obj ?rows =
      map (\<lambda>r. if is_latest obj \<and> next_latest s b k vid = Some r
                     then r\<lparr>is_latest := True\<rparr> else r)
             (filter (\<lambda>r. version_id r \<noteq> vid) (objects s))"
  proof (cases "is_latest obj \<and> next_latest s b k vid \<noteq> None")
    case False
    then have "?rows = objects s" by auto
    moreover have "map (\<lambda>r. if is_latest obj \<and> next_latest s b k vid = Some r
                     then r\<lparr>is_latest := True\<rparr> else r) xs = xs" for xs
      using False by (induction xs) auto
    ultimately show ?thesis
      by (simp only: session_delete_def del)
  next
    case True
    then obtain n where n: "next_latest s b k vid = Some n" and lat: "is_latest obj" by auto
    from first_SomeD[OF n[unfolded next_latest_def]]
    have "n \<in> set (order_by_last_modified_desc (filter (\<lambda>r. version_id r \<noteq> vid) (chain s b k)))"
      by (metis list.set_intros(1))
    then have nin: "n \<in> set (objects s)" by (simp add: set_chain)
    have rows: "?rows = map (\<lambda>r. if id_col r = id_col n then n\<lparr>is_latest := True\<rparr> else r) (objects s)"
      using lat n by (simp add: session_update_def)
    have "session_delete obj ?rows =
        map (\<lambda>r. if id_col r = id_col n then n\<lparr>is_latest := True\<rparr> else r)
          (filter (\<lambda>r. id_col r \<noteq> id_col obj) (objects s))"
      unfolding rows session_delete_def filter_map
      by (rule arg_cong[where f = "map _"], rule filter_cong[OF refl]) simp
    also have "\<dots> = map (\<lambda>r. if is_latest obj \<and> next_latest s b k vid = Some r
                     then r\<lparr>is_latest := True\<rparr> else r)
             (filter (\<lambda>r. version_id r \<noteq> vid) (objects s))"
      unfolding del
    proof (rule map_cong[OF refl])
      fix r assume "r \<in> set (filter (\<lambda>r. version_id r \<noteq> vid) (objects s))"
      then have r: "r \<in> set (objects s)" by simp
      from pk_inj[OF pk r nin] have "id_col r = id_col n \<longleftrightarrow> r = n" by blast
      then show "(if id_col r = id_col n then n\<lparr>is_latest := True\<rparr> else r) =
          (if is_latest obj \<and> next_latest s b k vid = Some r then r\<lparr>is_latest := True\<rparr> else r)"
        using lat n by auto
    qed
    finally show ?thesis .
  qed
  with d show ?thesis by simp
qed

lemma next_latest_in:
  assumes "next_latest s b k vid = Some n"
  shows "n \<in> set (chain s b k)" and "version_id n \<noteq> vid"
    and "\<forall>r\<in>set (chain s b k). version_id r \<noteq> vid \<longrightarrow> last_modified r \<le> last_modified n"
proof -
  let ?K = "filter (\<lambda>r. version_id r \<noteq> vid) (chain s b k)"
  from first_SomeD[OF assms[unfolded next_latest_def]]
  obtain ys where ys: "order_by_last_modified_desc ?K = n # ys" by blast
  then have "n \<in> set (order_by_last_modified_desc ?K)" by simp
  then have "n \<in> set ?K" by simp
  then show "n \<in> set (chain s b k)" and "version_id n \<noteq> vid" by simp_all
  have "sorted (map (\<lambda>r. - last_modified r) (order_by_last_modified_desc ?K))"
    unfolding order_by_last_modified_desc_def by (rule sorted_sort_key)
  then have "sorted (map (\<lambda>r. - last_modified r) (n # ys))"
    unfolding ys .
  then have "\<forall>r\<in>set (n # ys). last_modified r \<le> last_modified n" by auto
  moreover have "set (n # ys) = set ?K" using ys by (metis set_order_by)
  ultimately have "\<forall>r\<in>set ?K. last_modified r \<le> last_modified n" by blast
  then show "\<forall>r\<in>set (chain s b k). version_id r \<noteq> vid \<longrightarrow> last_modified r \<le> last_modified n"
    by simp
qed

lemma next_latest_None:
  "next_latest s b k vid = None \<longleftrightarrow> filter (\<lambda>r. version_id r \<noteq> vid) (chain s b k) = []"
proof -
  have "order_by_last_modified_desc xs = [] \<longleftrightarrow> xs = []" for xs
    by (metis set_order_by set_empty)
  then show ?thesis by (simp add: next_latest_def)
qed

lemma I1_latest_unique:
  assumes "I1 s" and "r \<in> set (chain s b k)" and "is_latest r"
    and "x \<in> set (chain s b k)" and "is_latest x"
  shows "x = r"
proof -
  have "length (filter is_latest (chain s b k)) \<le> 1" by (rule I1_at_most_one[OF assms(1)])
  moreover have "r \<in> set (filter is_latest (chain s b k))" "x \<in> set (filter is_latest (chain s b k))"
    using assms by simp_all
  ultimately show ?thesis
    by (cases "filter is_latest (chain s b k)") auto
qed

lemma I1_latest_exists:
  assumes "I1 s" and "r \<in> set (chain s b k)"
  shows "\<exists>l\<in>set (chain s b k). is_latest l"
proof -
  from assms(2) have "r \<in> set (objects s)" "bucket_name r = b" "key r = k"
    by (simp_all add: set_chain)
  with assms(1) have "length (filter is_latest (chain s b k)) = 1" by (auto simp: I1_def)
  then have "filter is_latest (chain s b k) \<noteq> []" by auto
  then show ?thesis by (simp add: filter_empty_conv)
qed

lemma wf_delete_version:
  assumes wf: "wf md5 s" and vid: "vid \<noteq> []"
  shows "wf md5 (snd (delete_object s b k (Some vid) uuid4 utcnow))"
proof (cases "\<exists>obj\<in>set (chain s b k). version_id obj = vid")
  case False
  then have "filter (\<lambda>r. version_id r = vid) (chain s b k) = []"
    by (simp add: filter_empty_conv)
  then have "filter (\<lambda>r. bucket_name r = b \<and> key r = k \<and> version_id r = vid) (objects s) = []"
    unfolding chain_def filter_filter by (simp add: filter_empty_conv)
  with vid wf show ?thesis by (simp add: delete_object_def truthy_def)
next
  case True
  then obtain obj where obj: "obj \<in> set (chain s b k)" "version_id obj = vid" by blast
  from wf have pk: "primary_key s" and i1: "I1 s" and i3: "I3 s" by (simp_all add: wf_def)
  from i3 have dv: "distinct (map version_id (objects s))" by (simp add: I3_def)
  have oin: "obj \<in> set (objects s)" "bucket_name obj = b" "key obj = k"
    using obj(1) by (simp_all add: set_chain)
  note vu = vid_unique[OF dv oin(1), unfolded obj(2)]
  define keep where "keep = (\<lambda>r::object_version. version_id r \<noteq> vid)"
  define lat where "lat = (\<lambda>r. is_latest r \<or> (is_latest obj \<and> next_latest s b k vid = Some r))"
  have dobj: "distinct (objects s)" by (rule pk_distinct[OF pk])
  have objs: "map (\<lambda>r. if is_latest obj \<and> next_latest s b k vid = Some r
                     then r\<lparr>is_latest := True\<rparr> else r) (filter keep (objects s)) =
      map (\<lambda>r. if bucket_name r = b \<and> key r = k then r\<lparr>is_latest := lat r\<rparr> else r)
        (filter keep (objects s))"
  proof (rule map_cong[OF refl])
    fix r assume "r \<in> set (filter keep (objects s))"
    show "(if is_latest obj \<and> next_latest s b k vid = Some r then r\<lparr>is_latest := True\<rparr> else r) =
        (if bucket_name r = b \<and> key r = k then r\<lparr>is_latest := lat r\<rparr> else r)"
    proof (cases "is_latest obj \<and> next_latest s b k vid = Some r")
      case True
      then have "r \<in> set (chain s b k)" using next_latest_in(1) by blast
      then have "bucket_name r = b \<and> key r = k" by (simp add: set_chain)
      with True show ?thesis by (simp add: lat_def)
    next
      case False
      then have "lat r = is_latest r" by (auto simp: lat_def)
      then have "r\<lparr>is_latest := lat r\<rparr> = r" by simp
      with False show ?thesis by (simp only: if_False if_cancel)
    qed
  qed
  have one: "filter (\<lambda>r. keep r \<and> bucket_name r = b \<and> key r = k) (objects s) = [] \<or>
       length (filter (\<lambda>r. keep r \<and> bucket_name r = b \<and> key r = k \<and> lat r) (objects s)) = 1"
  proof (cases "filter (\<lambda>r. keep r \<and> bucket_name r = b \<and> key r = k) (objects s) = []")
    case True
    then show ?thesis ..
  next
    case False
    then obtain x where x: "x \<in> set (objects s)" "keep x" "bucket_name x = b" "key x = k"
      by (auto simp: filter_empty_conv)
    then have xc: "x \<in> set (chain s b k)" by (simp add: set_chain)
    have "\<exists>w. {r. keep r \<and> bucket_name r = b \<and> key r = k \<and> lat r} \<inter> set (objects s) = {w}"
    proof (cases "is_latest obj")
      case True
      have "filter (\<lambda>r. version_id r \<noteq> vid) (chain s b k) \<noteq> []"
        using xc x(2) by (auto simp: filter_empty_conv keep_def)
      then obtain n where n: "next_latest s b k vid = Some n"
        using next_latest_None[of s b k vid] by auto
      note nin = next_latest_in(1,2)[OF n]
      have "{r. keep r \<and> bucket_name r = b \<and> key r = k \<and> lat r} \<inter> set (objects s) = {n}"
      proof (intro equalityI subsetI)
        fix r assume "r \<in> {r. keep r \<and> bucket_name r = b \<and> key r = k \<and> lat r} \<inter> set (objects s)"
        then have r: "r \<in> set (chain s b k)" "keep r" "lat r" "r \<in> set (objects s)"
          by (simp_all add: set_chain)
        have "\<not> is_latest r"
        proof
          assume "is_latest r"
          from I1_latest_unique[OF i1 obj(1) True r(1) this] have "r = obj" .
          with r(2) obj(2) show False by (simp add: keep_def)
        qed
        with r(3) n show "r \<in> {n}" by (simp add: lat_def)
      next
        fix r assume "r \<in> {n}"
        then show "r \<in> {r. keep r \<and> bucket_name r = b \<and> key r = k \<and> lat r} \<inter> set (objects s)"
          using nin n True by (simp add: set_chain keep_def lat_def)
      qed
      then show ?thesis ..
    next
      case nl: False
      from I1_latest_exists[OF i1 obj(1)] obtain l where l: "l \<in> set (chain s b k)" "is_latest l"
        by blast
      with nl have "l \<noteq> obj" by auto
      then have kl: "keep l" using vu[of l] l(1) by (simp add: keep_def set_chain)
      have "{r. keep r \<and> bucket_name r = b \<and> key r = k \<and> lat r} \<inter> set (objects s) = {l}"
      proof (intro equalityI subsetI)
        fix r assume "r \<in> {r. keep r \<and> bucket_name r = b \<and> key r = k \<and> lat r} \<inter> set (objects s)"
        then have r: "r \<in> set (chain s b k)" "lat r" by (simp_all add: set_chain)
        with nl have "is_latest r" by (simp add: lat_def)
        from I1_latest_unique[OF i1 l r(1) this] show "r \<in> {l}" by simp
      next
        fix r assume "r \<in> {l}"
        then show "r \<in> {r. keep r \<and> bucket_name r = b \<and> key r = k \<and> lat r} \<inter> set (objects s)"
          using l kl by (simp add: set_chain lat_def)
      qed
      then show ?thesis ..
    qed
    then obtain w where "{r. keep r \<and> bucket_name r = b \<and> key r = k \<and> lat r} \<inter> set (objects s) = {w}" ..
    then have "length (filter (\<lambda>r. keep r \<and> bucket_name r = b \<and> key r = k \<and> lat r) (objects s)) = 1"
      using distinct_length_filter[OF dobj, of "\<lambda>r. keep r \<and> bucket_name r = b \<and> key r = k \<and> lat r"]
      by simp
    then show ?thesis ..
  qed
  show ?thesis
    unfolding delete_version_eq[OF pk dv vid obj] snd_conv
  proof (rule wf_prune[OF wf _ one])
    fix r :: object_version
    assume r: "r \<in> set (objects s)" and "\<not> (bucket_name r = b \<and> key r = k)"
    then have "r \<noteq> obj" using oin by auto
    with vu[OF r] show "keep r" by (simp add: keep_def)
  next
    show "objects (s\<lparr>objects := map (\<lambda>r. if is_latest obj \<and> next_latest s b k vid = Some r
                     then r\<lparr>is_latest := True\<rparr> else r)
             (filter (\<lambda>r. version_id r \<noteq> vid) (objects s)),
        files := delete_blob obj (files s)\<rparr>) =
      map (\<lambda>r. if bucket_name r = b \<and> key r = k then r\<lparr>is_latest := lat r\<rparr> else r)
        (filter keep (objects s))"
      using objs by (simp add: keep_def)
  qed
qed


lemma wf_empty_store: "wf md5 empty_store"
  by (simp add: wf_def primary_key_def I1_def I2_def I3_def empty_store_def)

lemma wf_create_bucket: "wf md5 s \<Longrightarrow> wf md5 (snd (create_bucket s b utcnow))"
proof -
  assume w: "wf md5 s"
  have "objects (snd (create_bucket s b utcnow)) = objects s"
    by (simp add: create_bucket_def split: option.splits)
  from wf_objects_cong[OF this] w show ?thesis by simp
qed

lemma truthy_Some: "truthy versionId \<Longrightarrow> \<exists>v. versionId = Some v \<and> v \<noteq> []"
  by (cases versionId) (simp_all add: truthy_def)

lemma wf_step:
  assumes "wf md5 s" and "draws_fresh s r"
  shows "wf md5 (step md5 s r)"
proof (cases r)
  case (CreateBucket b t)
  with assms(1) show ?thesis by (simp add: wf_create_bucket)
next
  case (PutObject b k body ctype u t)
  with assms show ?thesis by (simp add: wf_put_object)
next
  case (DeleteObject b k versionId u t)
  show ?thesis
  proof (cases "truthy versionId")
    case True
    from truthy_Some[OF this] obtain v where "versionId = Some v" "v \<noteq> []" by blast
    with DeleteObject assms(1) show ?thesis by (simp add: wf_delete_version)
  next
    case False
    with DeleteObject assms show ?thesis by (simp add: wf_delete_marker)
  qed
next
  case (Rollback b k vid)
  with assms(1) show ?thesis by (simp add: wf_ui_rollback)
qed

lemma wf_run: "wf md5 s \<Longrightarrow> fresh_run md5 s rs \<Longrightarrow> wf md5 (run md5 s rs)"
  by (induction rs arbitrary: s) (simp_all add: wf_step)

lemma fresh_run_take: "fresh_run md5 s rs \<Longrightarrow> fresh_run md5 s (take n rs)"
proof (induction rs arbitrary: s n)
  case Nil
  then show ?case by simp
next
  case (Cons r rs)
  then show ?case by (cases n) simp_all
qed


section \<open>One latest row in every chain\<close>

text \<open>
  Claim C2. Start from the empty store and run any sequence of bucket creations, puts,
  deletes (with and without a version id) and rollbacks one after the other, where every
  uuid drawn is a uuid string that no row carries. After each request of the run (that
  is, after every prefix of it), every chain that has a row has exactly one row with
  \<open>is_latest\<close> set.
\<close>

theorem exactly_one_latest_per_chain:
  assumes "fresh_run md5 empty_store rs" and "n \<le> length rs"
    and "chain (run md5 empty_store (take n rs)) b k \<noteq> []"
  shows "length (filter is_latest (chain (run md5 empty_store (take n rs)) b k)) = 1"
proof -
  let ?s = "run md5 empty_store (take n rs)"
  have "wf md5 ?s"
    by (rule wf_run[OF wf_empty_store fresh_run_take[OF assms(1)]])
  then have i1: "I1 ?s" by (simp add: wf_def)
  from assms(3) obtain r where "r \<in> set (chain ?s b k)" by (cases "chain ?s b k") auto
  then have "r \<in> set (objects ?s)" "bucket_name r = b" "key r = k" by (simp_all add: set_chain)
  with i1 show ?thesis by (auto simp: I1_def)
qed

theorem exactly_one_latest_per_chain_witness:
  "fresh_run (\<lambda>x. x) empty_store example_run \<and> 5 \<le> length example_run \<and>
   chain (run (\<lambda>x. x) empty_store (take 5 example_run)) ''b'' ''k'' \<noteq> [] \<and>
   length (filter is_latest (chain (run (\<lambda>x. x) empty_store (take 5 example_run)) ''b'' ''k'')) = 1"
proof -
  have 1: "fresh_run (\<lambda>x. x) empty_store example_run" by code_simp
  have 2: "5 \<le> length example_run" by (simp add: example_run_def)
  have 3: "chain (run (\<lambda>x. x) empty_store (take 5 example_run)) ''b'' ''k'' \<noteq> []" by code_simp
  from exactly_one_latest_per_chain[OF 1 2 3] 1 2 3 show ?thesis by blast
qed



section \<open>The effect of a put\<close>




section \<open>Files of distinct versions\<close>

lemma takeWhile_append_stop: "\<not> P y \<Longrightarrow> takeWhile P (xs @ y # ys) = takeWhile P xs"
  by (induction xs) simp_all

lemma basename_append_sep: "basename (a @ sep # b) = basename b"
  by (simp add: basename_def takeWhile_append_stop)

lemma basename_path_join: "basename (path_join a b) = basename b"
proof (cases "is_abs b")
  case True
  then show ?thesis by (simp add: path_join_def)
next
  case nb: False
  show ?thesis
  proof (cases "a = [] \<or> ends_with_sep a")
    case False
    with nb show ?thesis using basename_append_sep[of a b] by (simp add: path_join_def)
  next
    case True
    show ?thesis
    proof (cases "a = []")
      case True
      with nb show ?thesis by (simp add: path_join_def)
    next
      case False
      with True have e: "ends_with_sep a" by simp
      then obtain a' where "a = a' @ [sep]"
        by (cases a rule: rev_cases) (simp_all add: ends_with_sep_def)
      with nb e show ?thesis using basename_append_sep[of a' b] by (simp add: path_join_def)
    qed
  qed
qed

lemma basename_no_sep: "sep \<notin> set p \<Longrightarrow> basename p = p"
proof -
  assume "sep \<notin> set p"
  then have "takeWhile (\<lambda>c. c \<noteq> sep) (rev p) = rev p"
    by (auto simp: takeWhile_eq_all_conv)
  then show ?thesis unfolding basename_def by (simp only: rev_rev_ident)
qed

lemma is_uuid_str_chars:
  assumes "is_uuid_str v"
  shows "v \<noteq> []" and "sep \<notin> set v"
proof -
  from assms have len: "length v = 36"
    and all: "\<forall>(i, c)\<in>set (enumerate 0 v). if i \<in> {8, 13, 18, 23} then c = CHR ''-'' else c \<in> set hexdigits"
    by (simp_all add: is_uuid_str_def list_all_iff)
  from len show "v \<noteq> []" by auto
  show "sep \<notin> set v"
  proof
    assume "sep \<in> set v"
    then obtain i where i: "i < length v" "v ! i = sep" by (auto simp: in_set_conv_nth)
    then have "(i, sep) \<in> set (enumerate 0 v)" by (auto simp: in_set_enumerate_eq)
    with all have "if i \<in> {8, 13, 18, 23} then sep = CHR ''-'' else sep \<in> set hexdigits" by blast
    then show False by (simp add: sep_def hexdigits_def split: if_splits)
  qed
qed

lemma basename_file_path:
  assumes "is_uuid_str v"
  shows "basename (get_file_path (locator md5 b k v)) = v"
  using is_uuid_str_chars[OF assms]
  by (simp add: get_file_path_def locator_def basename_path_join basename_no_sep)

lemma locator_nonempty: "is_uuid_str v \<Longrightarrow> locator md5 b k v \<noteq> []"
proof
  assume u: "is_uuid_str v" and e: "locator md5 b k v = []"
  have "basename (locator md5 b k v) = v"
    using is_uuid_str_chars[OF u] by (simp add: locator_def basename_path_join basename_no_sep)
  with e have "v = []" by (simp add: basename_def)
  with is_uuid_str_chars(1)[OF u] show False by simp
qed

lemma delete_physical_file_eq: "delete_physical_file p fs = fs(get_file_path p := None)"
  by (auto simp: delete_physical_file_def Let_def)

lemma delete_blob_wf:
  assumes "I2 md5 s" and "I3 s" and "obj \<in> set (objects s)"
  shows "delete_blob obj fs =
     (if is_delete_marker obj then fs
      else fs(get_file_path (locator md5 (bucket_name obj) (key obj) (version_id obj)) := None))"
proof -
  from assms have sp: "storage_path obj = (if is_delete_marker obj then None
      else Some (locator md5 (bucket_name obj) (key obj) (version_id obj)))"
    and u: "is_uuid_str (version_id obj)" by (simp_all add: I2_def I3_def)
  show ?thesis
    using locator_nonempty[OF u, of md5 "bucket_name obj" "key obj"]
    by (simp add: delete_blob_def sp delete_physical_file_eq)
qed

lemma other_blob_kept:
  assumes "I2 md5 s" and "I3 s" and "obj \<in> set (objects s)" and "r \<in> set (objects s)"
    and "r \<noteq> obj" and "storage_path r = Some p"
  shows "get_file_content p (delete_blob obj fs) = get_file_content p fs"
proof (cases "is_delete_marker obj")
  case True
  with delete_blob_wf[OF assms(1-3)] show ?thesis by simp
next
  case False
  from assms(1,4,6) have p: "p = locator md5 (bucket_name r) (key r) (version_id r)"
    by (auto simp: I2_def split: if_splits)
  from assms(2,3,4) have u: "is_uuid_str (version_id r)" "is_uuid_str (version_id obj)"
    and d: "distinct (map version_id (objects s))" by (simp_all add: I3_def)
  from vid_unique[OF d assms(3,4)] assms(5) have "version_id r \<noteq> version_id obj" by simp
  with basename_file_path[OF u(1)] basename_file_path[OF u(2)]
  have "get_file_path p \<noteq> get_file_path (locator md5 (bucket_name obj) (key obj) (version_id obj))"
    unfolding p by metis
  with False show ?thesis
    by (simp add: delete_blob_wf[OF assms(1-3)] get_file_content_def Let_def)
qed

lemma filter_chain_relabel:
  "filter (\<lambda>r. bucket_name r = b \<and> key r = k)
       (map (\<lambda>x. if c x then x\<lparr>is_latest := l x\<rparr> else x) xs) =
     map (\<lambda>x. if c x then x\<lparr>is_latest := l x\<rparr> else x)
       (filter (\<lambda>r. bucket_name r = b \<and> key r = k) xs)"
  by (induction xs) simp_all

lemma filter_latest_promote:
  assumes "distinct K" and "n \<in> set K" and "\<forall>r\<in>set K. \<not> is_latest r"
  shows "filter is_latest (map (\<lambda>r. if r = n then r\<lparr>is_latest := True\<rparr> else r) K) =
     [n\<lparr>is_latest := True\<rparr>]"
  using assms
proof (induction K)
  case Nil
  then show ?case by simp
next
  case (Cons x K)
  show ?case
  proof (cases "x = n")
    case True
    with Cons.prems have "n \<notin> set K" "\<forall>r\<in>set K. \<not> is_latest r" by simp_all
    then have "filter is_latest (map (\<lambda>r. if r = n then r\<lparr>is_latest := True\<rparr> else r) K) = []"
      by (induction K) auto
    with True show ?thesis by simp
  next
    case False
    with Cons.prems have "distinct K" "n \<in> set K" "\<forall>r\<in>set K. \<not> is_latest r" "\<not> is_latest x"
      by simp_all
    with Cons.IH False show ?thesis by simp
  qed
qed


lemma distinct_all_same:
  assumes "distinct xs" and "x \<in> set xs" and "\<forall>r\<in>set xs. r = x"
  shows "xs = [x]"
proof (cases xs)
  case Nil
  with assms(2) show ?thesis by simp
next
  case (Cons y ys)
  with assms(3) have y: "y = x" by simp
  have "ys = []"
  proof (cases ys)
    case Nil
    then show ?thesis .
  next
    case (Cons z zs)
    with \<open>xs = y # ys\<close> assms(3) have "z = x" by simp
    with Cons \<open>xs = y # ys\<close> y assms(1) show ?thesis by simp
  qed
  with Cons y show ?thesis by simp
qed

section \<open>Deleting one version\<close>

text \<open>
  Claim C5. In a well formed store, a delete that names the version id of a row of the
  chain answers 204 and removes that row and no other. It removes the file of the row
  when the row is not a delete marker, and changes no file when it is one; the files of
  all other rows are as before. When the row removed was the latest one and other rows
  of the chain remain, the first of them newest first, a row whose \<open>last_modified\<close>
  none of the remaining rows exceeds, becomes the one latest row of the chain. When the
  row removed was not the latest one, the rest of the chain is unchanged. The chain is
  empty afterwards exactly when the row was its only row. Every other chain is as it
  was.
\<close>

theorem delete_version_effect:
  fixes md5 :: "bytes \<Rightarrow> bytes" and s :: store and b k vid uuid4 :: string and utcnow :: int
    and obj :: object_version
  assumes wf: "wf md5 s" and obj: "obj \<in> set (chain s b k)" "version_id obj = vid"
  defines "res \<equiv> delete_object s b k (Some vid) uuid4 utcnow"
  shows "fst res = Inr \<lparr>status_code = 204, headers = [], content = []\<rparr> \<and>
    objects (snd res) =
      map (\<lambda>r. if is_latest obj \<and> next_latest s b k vid = Some r
                then r\<lparr>is_latest := True\<rparr> else r)
        (filter (\<lambda>r. r \<noteq> obj) (objects s)) \<and>
    files (snd res) =
      (if is_delete_marker obj then files s
       else (files s)(get_file_path (locator md5 b k vid) := None)) \<and>
    (\<forall>r\<in>set (objects s). \<forall>p. r \<noteq> obj \<and> storage_path r = Some p \<longrightarrow>
       get_file_content p (files (snd res)) = get_file_content p (files s)) \<and>
    (is_latest obj \<and> chain s b k \<noteq> [obj] \<longrightarrow>
       (\<exists>n\<in>set (chain s b k). n \<noteq> obj \<and> next_latest s b k vid = Some n \<and>
          (\<forall>r\<in>set (chain s b k). r \<noteq> obj \<longrightarrow> last_modified r \<le> last_modified n) \<and>
          filter is_latest (chain (snd res) b k) = [n\<lparr>is_latest := True\<rparr>])) \<and>
    (\<not> is_latest obj \<longrightarrow> chain (snd res) b k = filter (\<lambda>r. r \<noteq> obj) (chain s b k)) \<and>
    (chain (snd res) b k = [] \<longleftrightarrow> chain s b k = [obj]) \<and>
    (\<forall>b' k'. \<not> (b' = b \<and> k' = k) \<longrightarrow> chain (snd res) b' k' = chain s b' k')"
proof -
  from wf have pk: "primary_key s" and i1: "I1 s" and i2: "I2 md5 s" and i3: "I3 s"
    by (simp_all add: wf_def)
  from i3 have dv: "distinct (map version_id (objects s))" by (simp add: I3_def)
  have oin: "obj \<in> set (objects s)" "bucket_name obj = b" "key obj = k"
    using obj(1) by (simp_all add: set_chain)
  from i3 oin(1) have "is_uuid_str (version_id obj)" by (simp add: I3_def)
  then have vne: "vid \<noteq> []" using is_uuid_str_chars(1) obj(2) by blast
  note vu = vid_unique[OF dv oin(1), unfolded obj(2)]
  let ?g = "\<lambda>r. if is_latest obj \<and> next_latest s b k vid = Some r
                then r\<lparr>is_latest := True\<rparr> else r"
  have keep: "filter (\<lambda>r. version_id r \<noteq> vid) (objects s) = filter (\<lambda>r. r \<noteq> obj) (objects s)"
    by (rule filter_cong[OF refl]) (use vu in blast)
  have keepc: "filter (\<lambda>r. version_id r \<noteq> vid) (chain s b k) = filter (\<lambda>r. r \<noteq> obj) (chain s b k)"
    by (rule filter_cong[OF refl]) (use vu in \<open>simp add: set_chain\<close>)
  have eq: "res = (Inr \<lparr>status_code = 204, headers = [], content = []\<rparr>,
      s\<lparr>objects := map ?g (filter (\<lambda>r. r \<noteq> obj) (objects s)),
        files := delete_blob obj (files s)\<rparr>)"
    unfolding res_def delete_version_eq[OF pk dv vne obj] keep ..
  have c1: "fst res = Inr \<lparr>status_code = 204, headers = [], content = []\<rparr>"
    by (simp add: eq)
  have c2: "objects (snd res) = map ?g (filter (\<lambda>r. r \<noteq> obj) (objects s))"
    by (simp add: eq)
  have fl: "files (snd res) = delete_blob obj (files s)" by (simp add: eq)
  have c3: "files (snd res) = (if is_delete_marker obj then files s
       else (files s)(get_file_path (locator md5 b k vid) := None))"
    unfolding fl delete_blob_wf[OF i2 i3 oin(1)] oin(2,3) obj(2) ..
  have c4: "\<forall>r\<in>set (objects s). \<forall>p. r \<noteq> obj \<and> storage_path r = Some p \<longrightarrow>
       get_file_content p (files (snd res)) = get_file_content p (files s)"
    unfolding fl using other_blob_kept[OF i2 i3 oin(1)] by blast
  have dC: "distinct (chain s b k)"
    using pk_distinct[OF pk] by (simp add: chain_def)
  have ch: "chain (snd res) b' k' = map ?g (filter (\<lambda>r. r \<noteq> obj) (chain s b' k'))" for b' k'
  proof -
    have "chain (snd res) b' k' =
        map ?g (filter (\<lambda>r. bucket_name r = b' \<and> key r = k') (filter (\<lambda>r. r \<noteq> obj) (objects s)))"
      unfolding chain_def c2 by (rule filter_chain_relabel)
    also have "filter (\<lambda>r. bucket_name r = b' \<and> key r = k') (filter (\<lambda>r. r \<noteq> obj) (objects s)) =
        filter (\<lambda>r. r \<noteq> obj) (chain s b' k')"
      unfolding chain_def filter_filter by (rule filter_cong[OF refl]) blast
    finally show ?thesis .
  qed
  have nochange: "map ?g xs = xs"
    if h: "\<forall>r\<in>set xs. \<not> (is_latest obj \<and> next_latest s b k vid = Some r)" for xs
  proof (rule map_idI)
    fix r assume "r \<in> set xs"
    with h have "\<not> (is_latest obj \<and> next_latest s b k vid = Some r)" by blast
    then show "?g r = r" by (simp only: if_False)
  qed
  have c5: "is_latest obj \<and> chain s b k \<noteq> [obj] \<longrightarrow>
       (\<exists>n\<in>set (chain s b k). n \<noteq> obj \<and> next_latest s b k vid = Some n \<and>
          (\<forall>r\<in>set (chain s b k). r \<noteq> obj \<longrightarrow> last_modified r \<le> last_modified n) \<and>
          filter is_latest (chain (snd res) b k) = [n\<lparr>is_latest := True\<rparr>])"
  proof
    assume a: "is_latest obj \<and> chain s b k \<noteq> [obj]"
    have "filter (\<lambda>r. r \<noteq> obj) (chain s b k) \<noteq> []"
    proof
      assume "filter (\<lambda>r. r \<noteq> obj) (chain s b k) = []"
      then have all: "\<forall>r\<in>set (chain s b k). r = obj" by (simp add: filter_empty_conv)
      from distinct_all_same[OF dC obj(1) all] a show False by simp
    qed
    then obtain n where n: "next_latest s b k vid = Some n"
      using next_latest_None[of s b k vid] keepc by auto
    note nin = next_latest_in[OF n]
    from nin(2) have nne: "n \<noteq> obj" using obj(2) by blast
    have bound: "\<forall>r\<in>set (chain s b k). r \<noteq> obj \<longrightarrow> last_modified r \<le> last_modified n"
      using nin(3) vu by (auto simp: set_chain)
    let ?K = "filter (\<lambda>r. r \<noteq> obj) (chain s b k)"
    have g: "map ?g ?K = map (\<lambda>r. if r = n then r\<lparr>is_latest := True\<rparr> else r) ?K"
      by (rule map_cong[OF refl]) (use a n in auto)
    have nl: "\<forall>r\<in>set ?K. \<not> is_latest r"
    proof
      fix r assume "r \<in> set ?K"
      then have r: "r \<in> set (chain s b k)" "r \<noteq> obj" by simp_all
      show "\<not> is_latest r"
      proof
        assume "is_latest r"
        from I1_latest_unique[OF i1 obj(1) _ r(1) this] a r(2) show False by blast
      qed
    qed
    have "filter is_latest (chain (snd res) b k) = [n\<lparr>is_latest := True\<rparr>]"
      unfolding ch g
      by (rule filter_latest_promote) (use dC nin(1) nne nl in simp_all)
    with nin(1) nne n bound show "\<exists>n\<in>set (chain s b k). n \<noteq> obj \<and> next_latest s b k vid = Some n \<and>
          (\<forall>r\<in>set (chain s b k). r \<noteq> obj \<longrightarrow> last_modified r \<le> last_modified n) \<and>
          filter is_latest (chain (snd res) b k) = [n\<lparr>is_latest := True\<rparr>]"
      by blast
  qed
  have c6: "\<not> is_latest obj \<longrightarrow> chain (snd res) b k = filter (\<lambda>r. r \<noteq> obj) (chain s b k)"
  proof
    assume "\<not> is_latest obj"
    then show "chain (snd res) b k = filter (\<lambda>r. r \<noteq> obj) (chain s b k)"
      unfolding ch by (intro nochange) simp
  qed
  have c7: "chain (snd res) b k = [] \<longleftrightarrow> chain s b k = [obj]"
  proof
    assume "chain (snd res) b k = []"
    then have "filter (\<lambda>r. r \<noteq> obj) (chain s b k) = []" unfolding ch by simp
    then have all: "\<forall>r\<in>set (chain s b k). r = obj" by (simp add: filter_empty_conv)
    from distinct_all_same[OF dC obj(1) all] show "chain s b k = [obj]" .
  next
    assume "chain s b k = [obj]"
    then show "chain (snd res) b k = []" unfolding ch by simp
  qed
  have c8: "\<forall>b' k'. \<not> (b' = b \<and> k' = k) \<longrightarrow> chain (snd res) b' k' = chain s b' k'"
  proof (intro allI impI)
    fix b' k' assume ne: "\<not> (b' = b \<and> k' = k)"
    have notin: "r \<notin> set (chain s b k)" if "r \<in> set (chain s b' k')" for r
      using that ne by (auto simp: set_chain)
    have "filter (\<lambda>r. r \<noteq> obj) (chain s b' k') = chain s b' k'"
      using notin obj(1) by (auto simp: filter_id_conv)
    moreover have "map ?g (chain s b' k') = chain s b' k'"
    proof (rule nochange, rule ballI)
      fix r assume "r \<in> set (chain s b' k')"
      from notin[OF this] next_latest_in(1)[of s b k vid r]
      show "\<not> (is_latest obj \<and> next_latest s b k vid = Some r)" by blast
    qed
    ultimately show "chain (snd res) b' k' = chain s b' k'" unfolding ch by simp
  qed
  from c1 c2 c3 c4 c5 c6 c7 c8 show ?thesis by blast
qed

theorem delete_version_effect_witness:
  "wf (\<lambda>x. x) store_three \<and>
   row_of 3 uuid3 True 0x43 3 \<in> set (chain store_three ''b'' ''k'') \<and>
   version_id (row_of 3 uuid3 True 0x43 3) = uuid3 \<and>
   is_latest (row_of 3 uuid3 True 0x43 3) \<and>
   chain store_three ''b'' ''k'' \<noteq> [row_of 3 uuid3 True 0x43 3] \<and>
   fst (delete_object store_three ''b'' ''k'' (Some uuid3) [] 4) =
     Inr \<lparr>status_code = 204, headers = [], content = []\<rparr> \<and>
   filter is_latest (chain (snd (delete_object store_three ''b'' ''k'' (Some uuid3) [] 4))
     ''b'' ''k'') = [row_of 2 uuid2 True 0x42 2] \<and>
   files (snd (delete_object store_three ''b'' ''k'' (Some uuid3) [] 4)) =
     (files store_three)(get_file_path (locator (\<lambda>x. x) ''b'' ''k'' uuid3) := None)"
proof -
  let ?obj = "row_of 3 uuid3 True 0x43 3"
  let ?res = "delete_object store_three ''b'' ''k'' (Some uuid3) [] 4"
  have 1: "wf (\<lambda>x. x) store_three" by code_simp
  have 2: "?obj \<in> set (chain store_three ''b'' ''k'')"
    by (simp add: chain_def store_three_def row_of_def)
  have 3: "version_id ?obj = uuid3" by (simp add: row_of_def)
  have 4: "is_latest ?obj \<and> chain store_three ''b'' ''k'' \<noteq> [?obj]"
    by (simp add: chain_def store_three_def row_of_def)
  have 5: "\<not> is_delete_marker ?obj" by (simp add: row_of_def)
  have n: "next_latest store_three ''b'' ''k'' uuid3 = Some (row_of 2 uuid2 False 0x42 2)"
    by code_simp
  have p: "(row_of 2 uuid2 False 0x42 2)\<lparr>is_latest := True\<rparr> = row_of 2 uuid2 True 0x42 2"
    by (simp add: row_of_def)
  note t = delete_version_effect[OF 1 2 3, of "[]" 4]
  from t have a: "fst ?res = Inr \<lparr>status_code = 204, headers = [], content = []\<rparr>" by blast
  from t 5 have f: "files (snd ?res) =
      (files store_three)(get_file_path (locator (\<lambda>x. x) ''b'' ''k'' uuid3) := None)"
    by simp
  from t 4 obtain m where "next_latest store_three ''b'' ''k'' uuid3 = Some m"
    "filter is_latest (chain (snd ?res) ''b'' ''k'') = [m\<lparr>is_latest := True\<rparr>]"
    by blast
  with n p have l: "filter is_latest (chain (snd ?res) ''b'' ''k'') = [row_of 2 uuid2 True 0x42 2]"
    by simp
  from 1 2 3 4 a l f show ?thesis by blast
qed


section \<open>Files and order in a rollback\<close>








section \<open>Rollback to a version of the chain\<close>




end
